theory Spec2Isabelle
  imports Complex_Main "HOL-Library.Product_Lexorder" "HOL-Library.Multiset"
begin

section \<open>Values of the source language\<close>

text \<open>
  The program is Python (\<^verbatim>\<open>app.py\<close>). A Python \<^verbatim>\<open>str\<close> is a sequence of Unicode code
  points, so it is a list of naturals here; \<open>u\<close> turns an ASCII literal of the source into
  such a list. Literals of the source that are not ASCII are written out as code points.
\<close>

type_synonym ustr = "nat list"

definition u :: "string \<Rightarrow> ustr" where
  "u s = map of_char s"

text \<open>
  The values the program receives are decoded JSON: \<^verbatim>\<open>None\<close>, booleans, numbers, strings,
  lists and dictionaries. A dictionary is an association list with distinct keys; lookups
  and updates below treat it as Python does. A number is held by its value, a real: it is
  a Python \<^verbatim>\<open>int\<close> of any size or a finite \<^verbatim>\<open>float\<close>, which the program reads through
  \<^verbatim>\<open>float(...)\<close> or \<^verbatim>\<open>int(...)\<close>, and \<^verbatim>\<open>1 == 1.0\<close> holds in Python. \<^verbatim>\<open>json.loads\<close> reads
  a number with a fraction or an exponent that is beyond the range of \<^verbatim>\<open>float\<close> as an
  infinity, so a number beyond that range is an \<^verbatim>\<open>int\<close>. NaN and the infinities are not
  among the values that are received. What the program computes with floats is modelled
  in the section on the hotspot geometry, where the arithmetic of \<^verbatim>\<open>float\<close> is a
  parameter.
\<close>

datatype pyval =
    PNone
  | PBool bool
  | PNum real
  | PStr ustr
  | PList "pyval list"
  | PDict "(ustr \<times> pyval) list"

type_synonym pydict = "(ustr \<times> pyval) list"

datatype error = TypeError | ValueError | AttributeError | KeyError | OverflowError

section \<open>Levels and colours\<close>

text \<open>
  The level names of the source are Korean; in source order they read "very safe"
  (U+B9E4 U+C6B0 U+0020 U+C548 U+C804), "safe" (U+C548 U+C804), "caution"
  (U+C8FC U+C758), "risk" (U+C704 U+D5D8) and "very risky"
  (U+B9E4 U+C6B0 U+0020 U+C704 U+D5D8). \<open>DASH\<close> is the one-character string U+2014
  that \<^verbatim>\<open>level_of\<close> returns when no band matches.
\<close>

definition LV_VERY_SAFE :: ustr where
  "LV_VERY_SAFE = [47588, 50864, 32, 50504, 51204]"

definition LV_SAFE :: ustr where
  "LV_SAFE = [50504, 51204]"

definition LV_CAUTION :: ustr where
  "LV_CAUTION = [51452, 51032]"

definition LV_RISK :: ustr where
  "LV_RISK = [50948, 54744]"

definition LV_VERY_RISKY :: ustr where
  "LV_VERY_RISKY = [47588, 50864, 32, 50948, 54744]"

definition DASH :: ustr where
  "DASH = [8212]"

lemmas level_names =
  LV_VERY_SAFE_def LV_SAFE_def LV_CAUTION_def LV_RISK_def LV_VERY_RISKY_def DASH_def

definition LEVELS :: "(int \<times> int \<times> ustr) list" where
  "LEVELS =
    [(21, 25, LV_VERY_SAFE),
     (16, 20, LV_SAFE),
     (11, 15, LV_CAUTION),
     (6, 10, LV_RISK),
     (0, 5, LV_VERY_RISKY)]"

text \<open>The \<^verbatim>\<open>for lo, hi, name in LEVELS\<close> loop of \<^verbatim>\<open>level_of\<close>, with its fall-through.\<close>

fun level_scan :: "(int \<times> int \<times> ustr) list \<Rightarrow> int \<Rightarrow> ustr" where
  "level_scan [] s = DASH"
| "level_scan ((lo, hi, name) # rest) s =
     (if lo \<le> s \<and> s \<le> hi then name else level_scan rest s)"

definition level_of :: "int \<Rightarrow> ustr" where
  "level_of score = level_scan LEVELS (max 0 (min 25 score))"

text \<open>The bands of \<open>LEVELS\<close> that contain a score.\<close>

definition bands_of :: "int \<Rightarrow> (int \<times> int \<times> ustr) list" where
  "bands_of s = filter (\<lambda>(lo, hi, name). lo \<le> s \<and> s \<le> hi) LEVELS"

section \<open>The score classifier\<close>

lemma level_of_cases:
  "level_of s =
     (if 21 \<le> s then LV_VERY_SAFE
      else if 16 \<le> s then LV_SAFE
      else if 11 \<le> s then LV_CAUTION
      else if 6 \<le> s then LV_RISK
      else LV_VERY_RISKY)"
  by (auto simp add: level_of_def LEVELS_def)

lemma bands_of_cases:
  assumes "0 \<le> s" "s \<le> 25"
  shows "bands_of s =
     (if 21 \<le> s then [(21, 25, LV_VERY_SAFE)]
      else if 16 \<le> s then [(16, 20, LV_SAFE)]
      else if 11 \<le> s then [(11, 15, LV_CAUTION)]
      else if 6 \<le> s then [(6, 10, LV_RISK)]
      else [(0, 5, LV_VERY_RISKY)])"
  using assms by (simp add: bands_of_def LEVELS_def)

text \<open>
  C1. For every integer score in 0..25 exactly one band of the table contains the score,
  \<open>level_of\<close> returns the name of that band, the five names are pairwise different, and
  the fall-through value U+2014 is not returned.
\<close>

theorem level_of_partition:
  assumes "0 \<le> s" and "s \<le> 25"
  shows "(\<exists>lo hi. bands_of s = [(lo, hi, level_of s)] \<and> lo \<le> s \<and> s \<le> hi)
    \<and> level_of s \<in> {LV_VERY_SAFE, LV_SAFE, LV_CAUTION, LV_RISK, LV_VERY_RISKY}
    \<and> level_of s \<noteq> DASH
    \<and> distinct (map (\<lambda>(lo, hi, name). name) LEVELS)
    \<and> map (\<lambda>(lo, hi, name). (lo, hi)) LEVELS
        = [(21, 25), (16, 20), (11, 15), (6, 10), (0, 5)]"
proof -
  have "\<exists>lo hi. bands_of s = [(lo, hi, level_of s)] \<and> lo \<le> s \<and> s \<le> hi"
    using assms by (simp add: bands_of_cases level_of_cases)
  moreover have "level_of s \<in> {LV_VERY_SAFE, LV_SAFE, LV_CAUTION, LV_RISK, LV_VERY_RISKY}"
    by (simp add: level_of_cases)
  moreover have "level_of s \<noteq> DASH"
    by (simp add: level_of_cases level_names)
  moreover have "distinct (map (\<lambda>(lo, hi, name). name) LEVELS)"
    by (simp add: LEVELS_def level_names)
  moreover have "map (\<lambda>(lo, hi, name). (lo, hi)) LEVELS
      = [(21, 25), (16, 20), (11, 15), (6, 10), (0, 5)]"
    by (simp add: LEVELS_def)
  ultimately show ?thesis by blast
qed

theorem level_of_partition_witness:
  "(0::int) \<le> 13 \<and> (13::int) \<le> 25 \<and> bands_of 13 = [(11, 15, LV_CAUTION)]
    \<and> level_of 13 = LV_CAUTION \<and> level_of 13 \<noteq> DASH"
  using level_of_partition [of 13]
  by (simp add: bands_of_def level_of_def LEVELS_def)

section \<open>Python built-ins\<close>

text \<open>
  Built-ins of Python whose full definition is a Unicode table or a number parser are
  parameters of the model, collected in one record; every theorem below holds for all
  values of these parameters. \<open>str_lower\<close> is \<^verbatim>\<open>str.lower\<close>, \<open>str_repr\<close> is \<^verbatim>\<open>str(v)\<close> for
  a value that is not a string, \<open>str_int\<close> is \<^verbatim>\<open>int(s)\<close> on a string (\<open>None\<close> when Python
  raises \<^verbatim>\<open>ValueError\<close>), and \<open>re_ieq\<close> says when a pattern character matches a text
  character under \<^verbatim>\<open>re.IGNORECASE\<close>.
\<close>

record pyenv =
  str_lower :: "ustr \<Rightarrow> ustr"
  str_repr :: "pyval \<Rightarrow> ustr"
  str_int :: "ustr \<Rightarrow> int option"
  re_ieq :: "nat \<Rightarrow> nat \<Rightarrow> bool"

text \<open>Truth value of an object, and \<^verbatim>\<open>a or b\<close>.\<close>

fun truthy :: "pyval \<Rightarrow> bool" where
  "truthy PNone = False"
| "truthy (PBool b) = b"
| "truthy (PNum r) = (r \<noteq> 0)"
| "truthy (PStr s) = (s \<noteq> [])"
| "truthy (PList xs) = (xs \<noteq> [])"
| "truthy (PDict kvs) = (kvs \<noteq> [])"

definition py_or :: "pyval \<Rightarrow> pyval \<Rightarrow> pyval" where
  "py_or a b = (if truthy a then a else b)"

text \<open>\<^verbatim>\<open>str(v)\<close>: a string is returned as it is.\<close>

fun py_str :: "pyenv \<Rightarrow> pyval \<Rightarrow> ustr" where
  "py_str env (PStr s) = s"
| "py_str env v = str_repr env v"

text \<open>
  The characters for which \<^verbatim>\<open>str.isspace\<close> holds; the same set is what \<^verbatim>\<open>\s\<close> matches in
  a \<^verbatim>\<open>str\<close> pattern and what \<^verbatim>\<open>str.strip()\<close> removes.
\<close>

definition is_space :: "nat \<Rightarrow> bool" where
  "is_space c \<longleftrightarrow>
     (9 \<le> c \<and> c \<le> 13) \<or> (28 \<le> c \<and> c \<le> 32) \<or> c = 133 \<or> c = 160 \<or> c = 5760
     \<or> (8192 \<le> c \<and> c \<le> 8202) \<or> c = 8232 \<or> c = 8233 \<or> c = 8239 \<or> c = 8287
     \<or> c = 12288"

text \<open>\<^verbatim>\<open>s.strip()\<close>.\<close>

definition strip :: "ustr \<Rightarrow> ustr" where
  "strip s = rev (dropWhile is_space (rev (dropWhile is_space s)))"

text \<open>\<^verbatim>\<open>needle in hay\<close> on strings.\<close>

fun starts_with :: "ustr \<Rightarrow> ustr \<Rightarrow> bool" where
  "starts_with [] ys = True"
| "starts_with (x # xs) [] = False"
| "starts_with (x # xs) (y # ys) = (x = y \<and> starts_with xs ys)"

fun contains :: "ustr \<Rightarrow> ustr \<Rightarrow> bool" where
  "contains needle [] = (needle = [])"
| "contains needle (y # ys) = (starts_with needle (y # ys) \<or> contains needle ys)"

section \<open>Text normalizer and policy filter\<close>

text \<open>\<^verbatim>\<open>CIRCLED_RANGE\<close>: U+2460..U+2473, U+24F5..U+24FE, U+2776..U+277F.\<close>

definition is_circled :: "nat \<Rightarrow> bool" where
  "is_circled c \<longleftrightarrow>
     (9312 \<le> c \<and> c \<le> 9331) \<or> (9461 \<le> c \<and> c \<le> 9470) \<or> (10102 \<le> c \<and> c \<le> 10111)"

text \<open>
  \<^verbatim>\<open>re.sub(r"\s{2,}", " ", t)\<close>: scanning from the left, a maximal run of two or more
  whitespace characters becomes one U+0020; every other character is copied.
\<close>

function collapse_ws :: "ustr \<Rightarrow> ustr" where
  "collapse_ws [] = []"
| "collapse_ws [c] = [c]"
| "collapse_ws (c # d # cs) =
     (if is_space c \<and> is_space d then 32 # collapse_ws (dropWhile is_space cs)
      else c # collapse_ws (d # cs))"
  by pat_completeness auto
termination
  by (relation "measure length") (auto simp: length_dropWhile_le less_Suc_eq_le le_SucI)

definition strip_circled :: "pyenv \<Rightarrow> pyval \<Rightarrow> ustr" where
  "strip_circled env text =
     (if \<not> truthy text then []
      else strip (collapse_ws (filter (\<lambda>c. \<not> is_circled c) (py_str env text))))"

definition PERF_KEYWORDS :: "ustr list" where
  "PERF_KEYWORDS =
    [[51204, 54872],
     [51204, 54872, 50984],
     [52968, 48260, 51204],
     u ''conversion'',
     u ''CVR'',
     [44396, 47588, 50984],
     [47588, 52636],
     u ''Revenue'',
     u ''ROAS'',
     u ''CPA'',
     u ''CAC'',
     [53364, 47533],
     [53364, 47533, 47456],
     u ''CTR'',
     [46020, 45804],
     [45432, 52636, 49688],
     u ''impression'',
     u ''reach'',
     [48652, 47004, 46377],
     [48652, 47004, 46300, 32, 47532, 54532, 53944],
     [49457, 44284],
     [54140, 54252, 47676, 49828],
     [54952, 50984],
     [54952, 44284],
     [51204, 47029, 51201],
     [49457, 51109, 47456],
     u ''KPI'',
     [53944, 47000, 54589],
     [49464, 49496],
     [47532, 53584, 49496],
     [51116, 48169, 47928]]"

text \<open>
  \<^verbatim>\<open>_looks_performance\<close>; it is only called on the result of \<^verbatim>\<open>strip_circled\<close>, a string.
\<close>

definition looks_performance :: "pyenv \<Rightarrow> ustr \<Rightarrow> bool" where
  "looks_performance env line =
     (let low = str_lower env line
      in list_ex (\<lambda>kw. contains (str_lower env kw) low) PERF_KEYWORDS)"

text \<open>
  The fallback sentence of \<^verbatim>\<open>sanitize_lines\<close> (52 characters of Korean; it says that,
  performance and efficiency aside, no clear controversy was found). Its characters 8-9
  and 11-12 are the keywords U+C131 U+ACFC and U+D6A8 U+C728 of \<open>PERF_KEYWORDS\<close>.
\<close>

definition FALLBACK :: ustr where
  "FALLBACK =
    [54644, 45817, 32, 54637, 47785, 51008, 32, 49457, 44284, 183, 54952, 50984, 44284, 32,
     47924, 44288, 54616, 44172, 44, 32, 54788, 51116, 32, 44592, 51456, 50640, 49436, 32,
     46748, 47159, 54620, 32, 45436, 46976, 183, 47928, 51228, 32, 49548, 51648, 44032, 32,
     54869, 51064, 46104, 51648, 32, 50506, 49845, 45768, 45796, 46]"

text \<open>The loop of \<^verbatim>\<open>sanitize_lines\<close>, building \<^verbatim>\<open>outs\<close>.\<close>

fun sanitize_loop :: "pyenv \<Rightarrow> pyval list \<Rightarrow> ustr list" where
  "sanitize_loop env [] = []"
| "sanitize_loop env (x # xs) =
     (let t = strip_circled env x
      in if t = [] then sanitize_loop env xs
         else if looks_performance env t then sanitize_loop env xs
         else t # sanitize_loop env xs)"

definition sanitize_lines :: "pyenv \<Rightarrow> pyval list \<Rightarrow> ustr list" where
  "sanitize_lines env lines =
     (let outs = sanitize_loop env lines
      in if outs = [] then [FALLBACK] else outs)"

text \<open>
  An instance of the parameters for evaluating examples: lower-casing of ASCII letters,
  no string parses as a number, and case-insensitive equality of ASCII letters.
\<close>

definition ascii_lower :: "nat \<Rightarrow> nat" where
  "ascii_lower c = (if 65 \<le> c \<and> c \<le> 90 then c + 32 else c)"

definition ascii_env :: pyenv where
  "ascii_env = \<lparr>str_lower = map ascii_lower, str_repr = (\<lambda>v. u ''?''),
     str_int = (\<lambda>s. None),
     re_ieq = (\<lambda>a b. ascii_lower a = ascii_lower b)\<rparr>"

section \<open>The policy filter is idempotent\<close>

text \<open>No two neighbouring characters are both whitespace.\<close>

fun no_ws_run :: "ustr \<Rightarrow> bool" where
  "no_ws_run [] = True"
| "no_ws_run [c] = True"
| "no_ws_run (c # d # cs) = (\<not> (is_space c \<and> is_space d) \<and> no_ws_run (d # cs))"

lemma collapse_ws_hd:
  "\<not> is_space c \<Longrightarrow> \<exists>r. collapse_ws (c # cs) = c # r"
  by (cases cs) auto

lemma not_space_32 [simp]: "is_space 32"
  by (simp add: is_space_def)

lemma collapse_ws_no_run: "no_ws_run (collapse_ws s)"
proof (induction s rule: collapse_ws.induct)
  case 1
  show ?case by simp
next
  case (2 c)
  show ?case by simp
next
  case (3 c d cs)
  show ?case
  proof (cases "is_space c \<and> is_space d")
    case True
    let ?r = "dropWhile is_space cs"
    have ih: "no_ws_run (collapse_ws ?r)" using 3(1) True by simp
    show ?thesis
    proof (cases ?r)
      case Nil
      have "collapse_ws (c # d # cs) = 32 # collapse_ws ?r" using True by simp
      also have "\<dots> = [32]" by (simp only: Nil collapse_ws.simps)
      finally show ?thesis by simp
    next
      case (Cons e es)
      then have "\<not> is_space e"
        by (metis hd_dropWhile list.distinct(1) list.sel(1))
      then obtain r where r: "collapse_ws (e # es) = e # r"
        using collapse_ws_hd by blast
      have "collapse_ws (c # d # cs) = 32 # collapse_ws ?r" using True by simp
      also have "\<dots> = 32 # e # r" by (simp only: Cons r)
      finally have eq: "collapse_ws (c # d # cs) = 32 # e # r" .
      have "no_ws_run (e # r)" using ih by (simp only: Cons r)
      with \<open>\<not> is_space e\<close> show ?thesis by (simp only: eq no_ws_run.simps) simp
    qed
  next
    case False
    then have ih: "no_ws_run (collapse_ws (d # cs))" using 3(2) by simp
    have step: "collapse_ws (c # d # cs) = c # collapse_ws (d # cs)"
      by (simp only: collapse_ws.simps False if_False)
    show ?thesis
    proof (cases "is_space c")
      case True
      with False have nd: "\<not> is_space d" by simp
      then obtain r where r: "collapse_ws (d # cs) = d # r" using collapse_ws_hd by blast
      have "no_ws_run (d # r)" using ih by (simp only: r)
      with nd show ?thesis by (simp only: step r no_ws_run.simps) simp
    next
      case nc: False
      show ?thesis
      proof (cases "collapse_ws (d # cs)")
        case Nil
        then show ?thesis by (simp only: step no_ws_run.simps)
      next
        case (Cons e es)
        have "no_ws_run (e # es)" using ih by (simp only: Cons)
        with nc show ?thesis by (simp only: step Cons no_ws_run.simps) simp
      qed
    qed
  qed
qed

lemma collapse_ws_id: "no_ws_run s \<Longrightarrow> collapse_ws s = s"
  by (induction s rule: collapse_ws.induct) auto

lemma no_ws_run_dropWhile: "no_ws_run s \<Longrightarrow> no_ws_run (dropWhile P s)"
proof (induction s rule: no_ws_run.induct)
  case (3 c d cs)
  then show ?case by (cases "P c") auto
qed auto

lemma no_ws_run_append_single:
  "no_ws_run (s @ [c]) \<Longrightarrow> no_ws_run s"
  by (induction s rule: no_ws_run.induct) auto

lemma no_ws_run_rev: "no_ws_run (rev s) = no_ws_run s"
proof -
  have snoc: "\<And>s a b. no_ws_run (s @ [a, b]) = (\<not> (is_space a \<and> is_space b) \<and> no_ws_run (s @ [a]))"
  proof -
    fix s :: ustr and a b
    show "no_ws_run (s @ [a, b]) = (\<not> (is_space a \<and> is_space b) \<and> no_ws_run (s @ [a]))"
      by (induction s rule: no_ws_run.induct) auto
  qed
  show ?thesis
  proof (induction s rule: no_ws_run.induct)
    case (3 c d cs)
    have "no_ws_run (rev (c # d # cs)) = no_ws_run (rev cs @ [d, c])" by simp
    also have "\<dots> = (\<not> (is_space d \<and> is_space c) \<and> no_ws_run (rev cs @ [d]))"
      by (rule snoc)
    also have "\<dots> = (\<not> (is_space c \<and> is_space d) \<and> no_ws_run (d # cs))"
      using 3 by auto
    finally show ?case by simp
  qed auto
qed

lemma no_ws_run_strip: "no_ws_run s \<Longrightarrow> no_ws_run (strip s)"
  by (simp add: strip_def no_ws_run_rev no_ws_run_dropWhile)

lemma dropWhile_id: "(s \<noteq> [] \<Longrightarrow> \<not> P (hd s)) \<Longrightarrow> dropWhile P s = s"
  by (cases s) auto

lemma strip_strip: "strip (strip s) = strip s"
proof -
  let ?a = "dropWhile is_space s"
  let ?b = "dropWhile is_space (rev ?a)"
  have b_hd: "?b \<noteq> [] \<Longrightarrow> \<not> is_space (hd ?b)"
    by (simp add: hd_dropWhile)
  have a_hd: "?a \<noteq> [] \<Longrightarrow> \<not> is_space (hd ?a)"
    by (simp add: hd_dropWhile)
  have front: "dropWhile is_space (rev ?b) = rev ?b"
  proof (cases "?b = []")
    case True
    have "dropWhile is_space (rev ?b) = dropWhile is_space (rev [])"
      by (simp only: True)
    also have "\<dots> = rev []" by simp
    also have "\<dots> = rev ?b" by (simp only: True)
    finally show ?thesis .
  next
    case False
    have ne: "?a \<noteq> []"
    proof
      assume "?a = []"
      then have "?b = dropWhile is_space (rev [])" by (simp only:)
      then have "?b = []" by simp
      with False show False by blast
    qed
    then obtain y ys where a: "?a = y # ys" by (cases ?a) auto
    with a_hd have ny: "\<not> is_space y" by simp
    have "rev ?a = rev ys @ [y]" using a by simp
    then have "?b = dropWhile is_space (rev ys) @ [y]"
      using ny by (simp add: dropWhile_append)
    then have "rev ?b = y # rev (dropWhile is_space (rev ys))" by simp
    with ny show ?thesis by simp
  qed
  have "strip (strip s) = rev (dropWhile is_space (rev (dropWhile is_space (rev ?b))))"
    by (simp add: strip_def)
  also have "\<dots> = rev (dropWhile is_space ?b)"
    by (simp add: front)
  also have "\<dots> = rev ?b"
    using b_hd by (simp add: dropWhile_id)
  finally show ?thesis by (simp add: strip_def)
qed

lemma set_strip: "set (strip s) \<subseteq> set s"
proof
  fix x
  assume "x \<in> set (strip s)"
  then have "x \<in> set (dropWhile is_space (rev (dropWhile is_space s)))"
    by (simp add: strip_def)
  then have "x \<in> set (rev (dropWhile is_space s))"
    by (rule set_dropWhileD)
  then have "x \<in> set (dropWhile is_space s)"
    by simp
  then show "x \<in> set s"
    by (rule set_dropWhileD)
qed

lemma collapse_ws_not_circled:
  "\<forall>c\<in>set s. \<not> is_circled c \<Longrightarrow> \<forall>c\<in>set (collapse_ws s). \<not> is_circled c"
proof (induction s rule: collapse_ws.induct)
  case (3 c d cs)
  have "\<forall>x\<in>set (dropWhile is_space cs). \<not> is_circled x"
    using 3(3) by (auto dest: set_dropWhileD)
  with 3 show ?case by (auto simp: is_circled_def)
qed auto

text \<open>A normalized string is a fixed point of the normalizer.\<close>

lemma strip_circled_fixed:
  "strip_circled env (PStr (strip_circled env x)) = strip_circled env x"
proof (cases "truthy x")
  case False
  then have "strip_circled env x = []" by (simp add: strip_circled_def)
  then show ?thesis by (simp add: strip_circled_def)
next
  case tx: True
  define f where "f = filter (\<lambda>c. \<not> is_circled c) (py_str env x)"
  define t where "t = strip (collapse_ws f)"
  have sx: "strip_circled env x = t"
    using tx by (simp add: strip_circled_def t_def f_def)
  have "\<forall>c\<in>set (collapse_ws f). \<not> is_circled c"
    by (rule collapse_ws_not_circled) (simp add: f_def)
  with set_strip have nc: "\<forall>c\<in>set t. \<not> is_circled c"
    unfolding t_def by blast
  then have fl: "filter (\<lambda>c. \<not> is_circled c) t = t" by simp
  have run: "no_ws_run t"
    unfolding t_def by (rule no_ws_run_strip) (rule collapse_ws_no_run)
  have "strip_circled env (PStr t) = t"
  proof (cases "t = []")
    case True
    then show ?thesis by (simp add: strip_circled_def)
  next
    case False
    then have "strip_circled env (PStr t)
        = strip (collapse_ws (filter (\<lambda>c. \<not> is_circled c) t))"
      by (simp add: strip_circled_def)
    also have "\<dots> = strip (collapse_ws t)" by (simp only: fl)
    also have "\<dots> = strip t" by (simp only: collapse_ws_id [OF run])
    also have "\<dots> = t" unfolding t_def by (rule strip_strip)
    finally show ?thesis .
  qed
  then show ?thesis by (simp only: sx)
qed

lemma sanitize_loop_fixed:
  "sanitize_loop env (map PStr (sanitize_loop env xs)) = sanitize_loop env xs"
proof (induction xs)
  case Nil
  show ?case by simp
next
  case (Cons x xs)
  define t where "t = strip_circled env x"
  have fx: "strip_circled env (PStr t) = t"
    unfolding t_def by (rule strip_circled_fixed)
  show ?case
  proof (cases "t = [] \<or> looks_performance env t")
    case True
    then have "sanitize_loop env (x # xs) = sanitize_loop env xs"
      by (auto simp: Let_def t_def)
    with Cons.IH show ?thesis by (simp only:)
  next
    case False
    then have step: "sanitize_loop env (x # xs) = t # sanitize_loop env xs"
      by (simp add: Let_def t_def)
    have "sanitize_loop env (map PStr (t # sanitize_loop env xs))
        = t # sanitize_loop env (map PStr (sanitize_loop env xs))"
      using False by (simp add: Let_def fx)
    with Cons.IH step show ?thesis by (simp only:)
  qed
qed

lemma strip_circled_FALLBACK: "strip_circled env (PStr FALLBACK) = FALLBACK"
  by (simp add: strip_circled_def FALLBACK_def is_circled_def strip_def is_space_def)

lemma sanitize_FALLBACK: "sanitize_lines env [PStr FALLBACK] = [FALLBACK]"
proof -
  have "FALLBACK \<noteq> []" by (simp add: FALLBACK_def)
  then show ?thesis
    by (simp add: sanitize_lines_def Let_def strip_circled_FALLBACK)
qed

text \<open>
  The fallback sentence holds two of the keywords. Where \<^verbatim>\<open>str.lower\<close> leaves the sentence
  and the keyword U+C131 U+ACFC as they are (Hangul has no case), the filter drops the
  sentence, and it is the empty-result branch that returns it again.
\<close>

lemma fallback_looks_performance:
  assumes "str_lower env FALLBACK = FALLBACK"
    and "str_lower env [49457, 44284] = [49457, 44284]"
  shows "looks_performance env FALLBACK"
proof -
  have "contains [49457, 44284] FALLBACK"
    by (simp add: FALLBACK_def)
  moreover have "[49457, 44284] \<in> set PERF_KEYWORDS"
    by (simp add: PERF_KEYWORDS_def)
  ultimately show ?thesis
    unfolding looks_performance_def Let_def list_ex_iff assms(1)
    using assms(2) by force
qed

text \<open>
  C5. Sanitizing the result of \<open>sanitize_lines\<close> again returns the same list, the result is
  never empty, and when every line is filtered out the result is the one fallback
  sentence, which \<open>sanitize_lines\<close> maps to itself.
\<close>

theorem sanitize_lines_idempotent:
  "sanitize_lines env (map PStr (sanitize_lines env xs)) = sanitize_lines env xs
    \<and> sanitize_lines env xs \<noteq> []
    \<and> (sanitize_loop env xs = [] \<longrightarrow> sanitize_lines env xs = [FALLBACK])
    \<and> sanitize_lines env [PStr FALLBACK] = [FALLBACK]"
proof -
  have idem: "sanitize_lines env (map PStr (sanitize_lines env xs)) = sanitize_lines env xs"
  proof (cases "sanitize_loop env xs = []")
    case True
    then have "sanitize_lines env xs = [FALLBACK]" by (simp add: sanitize_lines_def)
    then show ?thesis by (simp add: sanitize_FALLBACK)
  next
    case False
    then have eq: "sanitize_lines env xs = sanitize_loop env xs"
      by (simp add: sanitize_lines_def)
    have "sanitize_lines env (map PStr (sanitize_loop env xs)) = sanitize_loop env xs"
      using False by (simp add: sanitize_lines_def sanitize_loop_fixed)
    with eq show ?thesis by simp
  qed
  have ne: "sanitize_lines env xs \<noteq> []"
    by (simp add: sanitize_lines_def Let_def)
  have fb: "sanitize_loop env xs = [] \<longrightarrow> sanitize_lines env xs = [FALLBACK]"
    by (simp add: sanitize_lines_def)
  from idem ne fb sanitize_FALLBACK show ?thesis by blast
qed

theorem sanitize_lines_idempotent_witness:
  "sanitize_loop ascii_env [PStr (u ''Good CTR''), PNone] = []
    \<and> sanitize_lines ascii_env [PStr (u ''Good CTR''), PNone] = [FALLBACK]
    \<and> sanitize_lines ascii_env (map PStr (sanitize_lines ascii_env [PStr (u ''Good CTR''), PNone]))
        = [FALLBACK]"
proof -
  have low: "str_lower ascii_env = map ascii_lower"
    by (simp add: ascii_env_def)
  have sc: "strip_circled ascii_env (PStr (u ''Good CTR'')) = u ''Good CTR''"
    by (simp add: strip_circled_def u_def is_circled_def strip_def is_space_def)
  have perf: "looks_performance ascii_env (u ''Good CTR'')"
    by (simp add: looks_performance_def PERF_KEYWORDS_def low u_def ascii_lower_def)
  have none: "strip_circled ascii_env PNone = []"
    by (simp add: strip_circled_def)
  have loop: "sanitize_loop ascii_env [PStr (u ''Good CTR''), PNone] = []"
    by (simp add: Let_def sc perf none)
  from loop sanitize_lines_idempotent [of ascii_env "[PStr (u ''Good CTR''), PNone]"]
  show ?thesis by simp
qed

section \<open>Dictionaries and conversions\<close>

text \<open>\<^verbatim>\<open>d.get(k, default)\<close> on a dictionary; \<^verbatim>\<open>d.get(k)\<close> is \<open>py_get d k PNone\<close>.\<close>

definition py_get :: "pydict \<Rightarrow> ustr \<Rightarrow> pyval \<Rightarrow> pyval" where
  "py_get d k dflt = (case map_of d k of None \<Rightarrow> dflt | Some v \<Rightarrow> v)"

text \<open>
  \<^verbatim>\<open>int(v)\<close>: a number is truncated towards zero, a boolean is 0 or 1, a string is
  parsed, and \<^verbatim>\<open>None\<close>, a list or a dictionary raise \<^verbatim>\<open>TypeError\<close>.
\<close>

fun py_int :: "pyenv \<Rightarrow> pyval \<Rightarrow> error + int" where
  "py_int env PNone = Inl TypeError"
| "py_int env (PBool b) = Inr (if b then 1 else 0)"
| "py_int env (PNum r) = Inr (if 0 \<le> r then \<lfloor>r\<rfloor> else \<lceil>r\<rceil>)"
| "py_int env (PStr s) = (case str_int env s of None \<Rightarrow> Inl ValueError | Some i \<Rightarrow> Inr i)"
| "py_int env (PList xs) = Inl TypeError"
| "py_int env (PDict kvs) = Inl TypeError"

section \<open>Aggregator\<close>

definition PALETTE :: "(ustr \<times> ustr) list" where
  "PALETTE =
    [(LV_VERY_SAFE, u ''#16A34A''),
     (LV_SAFE, u ''#65A30D''),
     (LV_CAUTION, u ''#D97706''),
     (LV_RISK, u ''#F59E0B''),
     (LV_VERY_RISKY, u ''#FF1F1F'')]"

text \<open>\<^verbatim>\<open>PALETTE[k]\<close>, which raises \<^verbatim>\<open>KeyError\<close> for a key that is not in the table.\<close>

definition palette_at :: "ustr \<Rightarrow> error + ustr" where
  "palette_at k = (case map_of PALETTE k of None \<Rightarrow> Inl KeyError | Some c \<Rightarrow> Inr c)"

text \<open>
  The two source names, Korean for "text" (U+D14D U+C2A4 U+D2B8) and "image"
  (U+C774 U+BBF8 U+C9C0), the three emoji and the pieces of the summary sentences.
\<close>

definition SRC_TEXT :: ustr where
  "SRC_TEXT = [53581, 49828, 53944]"

definition SRC_IMAGE :: ustr where
  "SRC_IMAGE = [51060, 48120, 51648]"

definition EMOJI_STOP :: ustr where
  "EMOJI_STOP = [128721]"

definition EMOJI_WARN :: ustr where
  "EMOJI_WARN = [9888, 65039]"

definition EMOJI_OK :: ustr where
  "EMOJI_OK = [9989]"

definition SUM_ASPECT :: ustr where
  "SUM_ASPECT = [32, 52769, 47732, 50640, 49436, 32, 40]"

definition SUM_VERY_RISKY :: ustr where
  "SUM_VERY_RISKY =
    [32, 45236, 41, 32, 47588, 50864, 32, 53360, 32, 47532, 49828, 53356, 44032, 32,
     51080, 49845, 45768, 45796, 46]"

definition SUM_RISK :: ustr where
  "SUM_RISK =
    [32, 45236, 41, 32, 50976, 51032, 48120, 54620, 32, 47532, 49828, 53356, 44032, 32,
     51080, 49845, 45768, 45796, 46]"

definition SUM_CAUTION :: ustr where
  "SUM_CAUTION =
    [32, 45236, 41, 32, 51452, 51032, 32, 49888, 54840, 44032, 32, 51080, 49845, 45768,
     45796, 46]"

definition SUM_SAFE :: ustr where
  "SUM_SAFE =
    [51204, 48152, 51201, 51004, 47196, 32, 50504, 51204, 32, 49688, 51456, 51077, 45768,
     45796, 46, 32, 52572, 49548, 32, 50504, 51204, 32, 51216, 49688, 32, 49, 54, 51216, 32,
     51060, 49345, 46]"

definition SUM_VERY_SAFE :: ustr where
  "SUM_VERY_SAFE =
    [51204, 48152, 51201, 51004, 47196, 32, 47588, 50864, 32, 50504, 51204, 54633, 45768,
     45796, 46, 32, 47784, 46304, 32, 52629, 51060, 32, 50, 49, 51216, 32, 51060, 49345, 46]"

text \<open>
  The key function of \<^verbatim>\<open>min_dim\<close>, \<^verbatim>\<open>lambda d: int(d.get("score", 0))\<close>. An element that is
  not a dictionary has no \<^verbatim>\<open>get\<close>.
\<close>

definition score_key :: "pyenv \<Rightarrow> pyval \<Rightarrow> error + int" where
  "score_key env d =
     (case d of
        PDict kvs \<Rightarrow> py_int env (py_get kvs (u ''score'') (PNum 0))
      | _ \<Rightarrow> Inl AttributeError)"

text \<open>
  \<^verbatim>\<open>min(dims, key=...)\<close> after its first element: the key of each element is computed in
  turn, and the element replaces the current minimum only when its key is smaller.
\<close>

fun min_loop :: "pyenv \<Rightarrow> pyval \<times> int \<Rightarrow> pyval list \<Rightarrow> error + pyval \<times> int" where
  "min_loop env best [] = Inr best"
| "min_loop env (m, km) (d # ds) =
     (case score_key env d of
        Inl e \<Rightarrow> Inl e
      | Inr k \<Rightarrow> min_loop env (if k < km then (d, k) else (m, km)) ds)"

text \<open>\<^verbatim>\<open>m.get("name", "")\<close> for the element \<^verbatim>\<open>m\<close> that \<^verbatim>\<open>min\<close> returned.\<close>

definition axis_name :: "pyval \<Rightarrow> error + pyval" where
  "axis_name m =
     (case m of
        PDict kvs \<Rightarrow> Inr (py_get kvs (u ''name'') (PStr []))
      | _ \<Rightarrow> Inl AttributeError)"

definition min_dim :: "pyenv \<Rightarrow> pyval list \<Rightarrow> error + pyval \<times> int \<times> ustr" where
  "min_dim env dims =
     (case dims of
        [] \<Rightarrow> Inr (PStr [], 25, DASH)
      | d # ds \<Rightarrow>
          (case score_key env d of
             Inl e \<Rightarrow> Inl e
           | Inr k \<Rightarrow>
               (case min_loop env (d, k) ds of
                  Inl e \<Rightarrow> Inl e
                | Inr (m, km) \<Rightarrow>
                    (case axis_name m of
                       Inl e \<Rightarrow> Inl e
                     | Inr name \<Rightarrow>
                         (case score_key env m of
                            Inl e \<Rightarrow> Inl e
                          | Inr s \<Rightarrow> Inr (name, s, level_of s))))))"

record verdict =
  level :: ustr
  worst_axis :: pyval
  worst_src :: ustr
  worst_score :: int
  bg :: ustr
  emoji :: ustr
  summary :: ustr

text \<open>
  The \<^verbatim>\<open>if lvl == ... elif ...\<close> chain of \<^verbatim>\<open>overall_from_text_image\<close>: background colour,
  emoji and summary. \<^verbatim>\<open>f"{worst_axis} ... ({worst_src} ...) ..."\<close> formats the axis with
  \<^verbatim>\<open>str\<close>.
\<close>

definition banner :: "pyenv \<Rightarrow> ustr \<Rightarrow> pyval \<Rightarrow> ustr \<Rightarrow> error + ustr \<times> ustr \<times> ustr" where
  "banner env lvl axis src =
     (if lvl = LV_VERY_RISKY then
        (case palette_at LV_VERY_RISKY of
           Inl e \<Rightarrow> Inl e
         | Inr c \<Rightarrow> Inr (c, EMOJI_STOP, py_str env axis @ SUM_ASPECT @ src @ SUM_VERY_RISKY))
      else if lvl = LV_RISK then
        (case palette_at LV_RISK of
           Inl e \<Rightarrow> Inl e
         | Inr c \<Rightarrow> Inr (c, EMOJI_WARN, py_str env axis @ SUM_ASPECT @ src @ SUM_RISK))
      else if lvl = LV_CAUTION then
        (case palette_at LV_CAUTION of
           Inl e \<Rightarrow> Inl e
         | Inr c \<Rightarrow> Inr (c, EMOJI_WARN, py_str env axis @ SUM_ASPECT @ src @ SUM_CAUTION))
      else if lvl = LV_SAFE then
        (case palette_at LV_SAFE of
           Inl e \<Rightarrow> Inl e
         | Inr c \<Rightarrow> Inr (c, EMOJI_OK, SUM_SAFE))
      else
        (case palette_at LV_VERY_SAFE of
           Inl e \<Rightarrow> Inl e
         | Inr c \<Rightarrow> Inr (c, EMOJI_OK, SUM_VERY_SAFE)))"

definition overall_from_text_image :: "pyenv \<Rightarrow> pyval list \<Rightarrow> pyval list \<Rightarrow> error + verdict" where
  "overall_from_text_image env text_dims image_dims =
     (case min_dim env text_dims of
        Inl e \<Rightarrow> Inl e
      | Inr (t_axis, t_score, t_level) \<Rightarrow>
          (case min_dim env image_dims of
             Inl e \<Rightarrow> Inl e
           | Inr (i_axis, i_score, i_level) \<Rightarrow>
               (let (src, axis, score) =
                      (if t_score \<le> i_score then (SRC_TEXT, t_axis, t_score)
                       else (SRC_IMAGE, i_axis, i_score));
                    lvl = level_of score
                in case banner env lvl axis src of
                     Inl e \<Rightarrow> Inl e
                   | Inr (c, em, sm) \<Rightarrow>
                       Inr \<lparr>level = lvl, worst_axis = axis, worst_src = src,
                            worst_score = score, bg = c, emoji = em, summary = sm\<rparr>)))"

text \<open>
  For stating what the aggregator selects: the position of the first occurrence of the
  least element of a list of scores, and the least score of a list with 25 for the empty
  list.
\<close>

definition first_min :: "int list \<Rightarrow> nat" where
  "first_min ks = length (takeWhile (\<lambda>k. k \<noteq> Min (set ks)) ks)"

definition least_score :: "int list \<Rightarrow> int" where
  "least_score ks = (if ks = [] then 25 else Min (set ks))"

text \<open>
  An axis assessment as the aggregator reads it: a dictionary whose \<^verbatim>\<open>score\<close>, when the key
  is there, is a number, a boolean or a string that \<^verbatim>\<open>int\<close> parses. Every other key may be
  missing or hold anything.
\<close>

fun int_like :: "pyenv \<Rightarrow> pyval \<Rightarrow> bool" where
  "int_like env (PNum r) = True"
| "int_like env (PBool b) = True"
| "int_like env (PStr s) = (str_int env s \<noteq> None)"
| "int_like env v = False"

fun assessment :: "pyenv \<Rightarrow> pyval \<Rightarrow> bool" where
  "assessment env (PDict kvs) =
     (case map_of kvs (u ''score'') of None \<Rightarrow> True | Some v \<Rightarrow> int_like env v)"
| "assessment env v = False"

section \<open>What the aggregator selects\<close>

lemma u_eq_iff [simp]: "u a = u b \<longleftrightarrow> a = b"
  unfolding u_def by (simp add: inj_map_eq_map inj_on_def)

lemma palette_at_levels:
  "palette_at LV_VERY_SAFE = Inr (u ''#16A34A'')"
  "palette_at LV_SAFE = Inr (u ''#65A30D'')"
  "palette_at LV_CAUTION = Inr (u ''#D97706'')"
  "palette_at LV_RISK = Inr (u ''#F59E0B'')"
  "palette_at LV_VERY_RISKY = Inr (u ''#FF1F1F'')"
  by (simp_all add: palette_at_def PALETTE_def level_names)

lemma banner_total: "\<exists>c em sm. banner env lvl axis src = Inr (c, em, sm)"
  by (simp add: banner_def palette_at_levels)

lemma min_loop_spec:
  assumes "map (score_key env) ds = map Inr ks"
  shows "min_loop env (m, km) ds =
     Inr (if \<forall>k\<in>set ks. km \<le> k then (m, km) else (ds ! first_min ks, Min (set ks)))"
  using assms
proof (induction ds arbitrary: m km ks)
  case Nil
  then show ?case by simp
next
  case (Cons d ds)
  then obtain k ks' where ks: "ks = k # ks'" and k: "score_key env d = Inr k"
    and rest: "map (score_key env) ds = map Inr ks'"
    by (cases ks) auto
  note IH = Cons.IH [OF rest]
  show ?case
  proof (cases "k < km")
    case True
    have step: "min_loop env (m, km) (d # ds) = min_loop env (d, k) ds"
      using True k by simp
    show ?thesis
    proof (cases "\<forall>x\<in>set ks'. k \<le> x")
      case all: True
      then have "Min (set ks) = k"
        unfolding ks by (auto intro!: Min_eqI)
      then have "first_min ks = 0" by (simp add: first_min_def ks)
      with all True \<open>Min (set ks) = k\<close> show ?thesis
        unfolding step IH by (auto simp: ks)
    next
      case nall: False
      then have ne: "ks' \<noteq> []" by auto
      have lt: "Min (set ks') < k"
        using nall ne by (auto simp: not_le Min_less_iff)
      have "Min (set ks) = min k (Min (set ks'))"
        unfolding ks using ne by simp
      also have "\<dots> = Min (set ks')" using lt by linarith
      finally have mn: "Min (set ks) = Min (set ks')" .
      have "k \<noteq> Min (set ks)" using lt mn by simp
      then have "first_min ks = Suc (first_min ks')"
        using mn by (simp add: first_min_def ks)
      with nall True mn show ?thesis
        unfolding step IH by (auto simp: ks)
    qed
  next
    case False
    have step: "min_loop env (m, km) (d # ds) = min_loop env (m, km) ds"
      using False k by simp
    show ?thesis
    proof (cases "\<forall>x\<in>set ks'. km \<le> x")
      case all: True
      with False show ?thesis unfolding step IH by (auto simp: ks)
    next
      case nall: False
      then have ne: "ks' \<noteq> []" by auto
      have lt: "Min (set ks') < km"
        using nall ne by (auto simp: not_le Min_less_iff)
      with False have lt': "Min (set ks') < k" by simp
      have "Min (set ks) = min k (Min (set ks'))"
        unfolding ks using ne by simp
      also have "\<dots> = Min (set ks')" using lt' by linarith
      finally have mn: "Min (set ks) = Min (set ks')" .
      have "k \<noteq> Min (set ks)" using lt' mn by simp
      then have "first_min ks = Suc (first_min ks')"
        using mn by (simp add: first_min_def ks)
      with nall False mn show ?thesis
        unfolding step IH by (auto simp: ks)
    qed
  qed
qed


lemma first_min_less:
  assumes "ks \<noteq> []"
  shows "first_min ks < length ks" and "ks ! first_min ks = Min (set ks)"
proof -
  have mem: "Min (set ks) \<in> set ks" using assms by (simp add: Min_in)
  have "takeWhile (\<lambda>k. k \<noteq> Min (set ks)) ks \<noteq> ks"
    using mem by (auto simp: takeWhile_eq_all_conv)
  then have "length (takeWhile (\<lambda>k. k \<noteq> Min (set ks)) ks) \<noteq> length ks"
    by (metis takeWhile_eq_take take_all order_refl)
  with length_takeWhile_le [of "\<lambda>k. k \<noteq> Min (set ks)" ks]
  show lt: "first_min ks < length ks"
    unfolding first_min_def by linarith
  from nth_length_takeWhile [of "\<lambda>k. k \<noteq> Min (set ks)" ks] lt
  show "ks ! first_min ks = Min (set ks)"
    unfolding first_min_def by simp
qed

lemma min_loop_first:
  assumes "score_key env d = Inr k" and "map (score_key env) ds = map Inr ks"
  shows "min_loop env (d, k) ds = Inr ((d # ds) ! first_min (k # ks), Min (set (k # ks)))"
proof (cases "\<forall>x\<in>set ks. k \<le> x")
  case True
  then have mn: "Min (set (k # ks)) = k"
    by (auto intro!: Min_eqI)
  then have "first_min (k # ks) = 0"
    by (simp add: first_min_def)
  with True mn show ?thesis
    unfolding min_loop_spec [OF assms(2)] by simp
next
  case False
  then have ne: "ks \<noteq> []" by auto
  have lt: "Min (set ks) < k"
    using False ne by (auto simp: not_le Min_less_iff)
  have "Min (set (k # ks)) = min k (Min (set ks))"
    using ne by simp
  also have "\<dots> = Min (set ks)" using lt by linarith
  finally have mn: "Min (set (k # ks)) = Min (set ks)" .
  have "k \<noteq> Min (set (k # ks))" using lt mn by simp
  then have "first_min (k # ks) = Suc (first_min ks)"
    using mn by (simp add: first_min_def)
  with False mn show ?thesis
    unfolding min_loop_spec [OF assms(2)] by auto
qed

lemma score_key_dict:
  "score_key env d = Inr k \<Longrightarrow> \<exists>name. axis_name d = Inr name"
  by (cases d) (simp_all add: score_key_def axis_name_def)

lemma min_dim_spec:
  assumes keys: "map (score_key env) ds = map Inr ks" and ne: "ds \<noteq> []"
  shows "\<exists>name. axis_name (ds ! first_min ks) = Inr name
    \<and> min_dim env ds = Inr (name, Min (set ks), level_of (Min (set ks)))"
proof -
  from keys ne obtain d ds' k ks' where ds: "ds = d # ds'" and ks: "ks = k # ks'"
    and k: "score_key env d = Inr k" and rest: "map (score_key env) ds' = map Inr ks'"
    by (cases ds; cases ks) auto
  define m where "m = ds ! first_min ks"
  have loop: "min_loop env (d, k) ds' = Inr (m, Min (set ks))"
    unfolding m_def ds ks by (rule min_loop_first [OF k rest])
  have kne: "ks \<noteq> []" by (simp add: ks)
  have len: "length ds = length ks"
    using keys by (metis length_map)
  have "score_key env m = map (score_key env) ds ! first_min ks"
    unfolding m_def using first_min_less(1) [OF kne] len by simp
  also have "\<dots> = Inr (ks ! first_min ks)"
    unfolding keys using first_min_less(1) [OF kne] by simp
  finally have sm: "score_key env m = Inr (Min (set ks))"
    by (simp only: first_min_less(2) [OF kne])
  then obtain name where nm: "axis_name m = Inr name"
    using score_key_dict by blast
  have "min_dim env ds = Inr (name, Min (set ks), level_of (Min (set ks)))"
    unfolding min_dim_def ds by (simp add: k loop nm sm)
  with nm show ?thesis unfolding m_def by blast
qed

lemma min_dim_empty: "min_dim env [] = Inr (PStr [], 25, DASH)"
  by (simp add: min_dim_def)

lemma overall_of_min_dims:
  assumes "min_dim env tds = Inr (ta, tsc, tlv)" and "min_dim env ids = Inr (ia, isc, ilv)"
  shows "\<exists>v. overall_from_text_image env tds ids = Inr v
    \<and> worst_src v = (if tsc \<le> isc then SRC_TEXT else SRC_IMAGE)
    \<and> worst_axis v = (if tsc \<le> isc then ta else ia)
    \<and> worst_score v = min tsc isc
    \<and> level v = level_of (min tsc isc)"
proof (cases "tsc \<le> isc")
  case True
  obtain c em sm where "banner env (level_of tsc) ta SRC_TEXT = Inr (c, em, sm)"
    using banner_total by blast
  with True show ?thesis
    by (simp add: overall_from_text_image_def assms)
next
  case False
  obtain c em sm where "banner env (level_of isc) ia SRC_IMAGE = Inr (c, em, sm)"
    using banner_total by blast
  with False show ?thesis
    by (simp add: overall_from_text_image_def assms)
qed

lemma assessment_score_key:
  "assessment env d \<Longrightarrow> \<exists>k. score_key env d = Inr k"
proof (cases d)
  case (PDict kvs)
  assume a: "assessment env d"
  show ?thesis
  proof (cases "map_of kvs (u ''score'')")
    case None
    then show ?thesis by (simp add: PDict score_key_def py_get_def)
  next
    case (Some v)
    with a PDict have "int_like env v" by simp
    then have "\<exists>k. py_int env v = Inr k" by (cases v) auto
    with Some show ?thesis by (simp add: PDict score_key_def py_get_def)
  qed
qed simp_all

lemma assessments_keys:
  "\<forall>d\<in>set ds. assessment env d \<Longrightarrow> \<exists>ks. map (score_key env) ds = map Inr ks"
proof (induction ds)
  case Nil
  show ?case by simp
next
  case (Cons d ds)
  then obtain ks where "map (score_key env) ds = map Inr ks" by auto
  moreover from Cons.prems have "assessment env d" by simp
  from assessment_score_key [OF this] obtain k where "score_key env d = Inr k" ..
  ultimately have "map (score_key env) (d # ds) = map Inr (k # ks)" by simp
  then show ?case by blast
qed

lemma min_dim_total:
  assumes "\<forall>d\<in>set ds. assessment env d"
  shows "\<exists>a s l. min_dim env ds = Inr (a, s, l)"
proof (cases "ds = []")
  case True
  then show ?thesis by (simp add: min_dim_empty)
next
  case False
  from assessments_keys [OF assms] obtain ks where "map (score_key env) ds = map Inr ks" ..
  from min_dim_spec [OF this False] show ?thesis by blast
qed

lemma src_names_differ: "SRC_TEXT \<noteq> SRC_IMAGE"
  by (simp add: SRC_TEXT_def SRC_IMAGE_def)

text \<open>
  C6. For two non-empty lists whose scores can be read, the worst source is "text" exactly
  when the least text score is at most the least image score (so also when they are
  equal), and "image" otherwise; the worst score is the smaller of the two minima, and the
  worst axis is the name of the first element, in input order, that has the least score of
  the selected list.
\<close>

theorem overall_worst_source:
  assumes "tds \<noteq> []" and "ids \<noteq> []"
    and "map (score_key env) tds = map Inr ks"
    and "map (score_key env) ids = map Inr js"
  shows "\<exists>v. overall_from_text_image env tds ids = Inr v
    \<and> worst_src v = (if Min (set ks) \<le> Min (set js) then SRC_TEXT else SRC_IMAGE)
    \<and> SRC_TEXT \<noteq> SRC_IMAGE
    \<and> worst_score v = min (Min (set ks)) (Min (set js))
    \<and> axis_name (if Min (set ks) \<le> Min (set js) then tds ! first_min ks
         else ids ! first_min js) = Inr (worst_axis v)
    \<and> first_min ks = length (takeWhile (\<lambda>k. k \<noteq> Min (set ks)) ks)
    \<and> first_min js = length (takeWhile (\<lambda>k. k \<noteq> Min (set js)) js)"
proof -
  from min_dim_spec [OF assms(3) assms(1)] obtain ta
    where ta: "axis_name (tds ! first_min ks) = Inr ta"
      and mt: "min_dim env tds = Inr (ta, Min (set ks), level_of (Min (set ks)))"
    by blast
  from min_dim_spec [OF assms(4) assms(2)] obtain ia
    where ia: "axis_name (ids ! first_min js) = Inr ia"
      and mi: "min_dim env ids = Inr (ia, Min (set js), level_of (Min (set js)))"
    by blast
  from overall_of_min_dims [OF mt mi] obtain v
    where v: "overall_from_text_image env tds ids = Inr v"
      "worst_src v = (if Min (set ks) \<le> Min (set js) then SRC_TEXT else SRC_IMAGE)"
      "worst_axis v = (if Min (set ks) \<le> Min (set js) then ta else ia)"
      "worst_score v = min (Min (set ks)) (Min (set js))"
    by blast
  have "axis_name (if Min (set ks) \<le> Min (set js) then tds ! first_min ks
      else ids ! first_min js) = Inr (worst_axis v)"
    using ta ia v(3) by simp
  with v(1,2,4) src_names_differ show ?thesis
    by (auto simp: first_min_def)
qed

text \<open>
  C7. For every two lists of axis assessments (dictionaries whose score is missing or can be
  read as an integer; every other field may be missing), empty lists included,
  \<open>overall_from_text_image\<close> returns a verdict and raises nothing; a missing score counts
  as 0, and an empty list contributes the triple with an empty axis name, score 25 and
  level U+2014.
\<close>

theorem overall_total:
  assumes "\<forall>d\<in>set tds. assessment env d" and "\<forall>d\<in>set ids. assessment env d"
  shows "(\<exists>v. overall_from_text_image env tds ids = Inr v)
    \<and> min_dim env [] = Inr (PStr [], 25, DASH)
    \<and> assessment env (PDict []) \<and> score_key env (PDict []) = Inr 0"
proof -
  from min_dim_total [OF assms(1)] obtain ta tsc tlv
    where t: "min_dim env tds = Inr (ta, tsc, tlv)" by blast
  from min_dim_total [OF assms(2)] obtain ia isc ilv
    where i: "min_dim env ids = Inr (ia, isc, ilv)" by blast
  from overall_of_min_dims [OF t i]
  have "\<exists>v. overall_from_text_image env tds ids = Inr v" by blast
  moreover have "score_key env (PDict []) = Inr 0"
    by (simp add: score_key_def py_get_def)
  ultimately show ?thesis by (simp add: min_dim_empty)
qed

theorem overall_worst_source_witness:
  "[PDict [(u ''name'', PStr (u ''Political'')), (u ''score'', PNum 12)],
    PDict [(u ''name'', PStr (u ''Cultural'')), (u ''score'', PNum 7)],
    PDict [(u ''name'', PStr (u ''Social'')), (u ''score'', PNum 7)]] \<noteq> []
   \<and> [PDict [(u ''name'', PStr (u ''Political'')), (u ''score'', PNum 7)]] \<noteq> []
   \<and> map (score_key ascii_env)
        [PDict [(u ''name'', PStr (u ''Political'')), (u ''score'', PNum 12)],
         PDict [(u ''name'', PStr (u ''Cultural'')), (u ''score'', PNum 7)],
         PDict [(u ''name'', PStr (u ''Social'')), (u ''score'', PNum 7)]] = map Inr [12, 7, 7]
   \<and> map (score_key ascii_env)
        [PDict [(u ''name'', PStr (u ''Political'')), (u ''score'', PNum 7)]] = map Inr [7]
   \<and> (\<exists>v. overall_from_text_image ascii_env
          [PDict [(u ''name'', PStr (u ''Political'')), (u ''score'', PNum 12)],
           PDict [(u ''name'', PStr (u ''Cultural'')), (u ''score'', PNum 7)],
           PDict [(u ''name'', PStr (u ''Social'')), (u ''score'', PNum 7)]]
          [PDict [(u ''name'', PStr (u ''Political'')), (u ''score'', PNum 7)]] = Inr v
        \<and> worst_src v = SRC_TEXT \<and> worst_score v = 7
        \<and> worst_axis v = PStr (u ''Cultural''))"
  using overall_worst_source [of
      "[PDict [(u ''name'', PStr (u ''Political'')), (u ''score'', PNum 12)],
        PDict [(u ''name'', PStr (u ''Cultural'')), (u ''score'', PNum 7)],
        PDict [(u ''name'', PStr (u ''Social'')), (u ''score'', PNum 7)]]"
      "[PDict [(u ''name'', PStr (u ''Political'')), (u ''score'', PNum 7)]]"
      ascii_env "[12, 7, 7]" "[7]"]
  by (auto simp add: score_key_def py_get_def first_min_def axis_name_def)

theorem overall_total_witness:
  "list_all (assessment ascii_env) [PDict [(u ''name'', PStr (u ''Political''))]]
   \<and> list_all (assessment ascii_env) []
   \<and> (\<exists>v. overall_from_text_image ascii_env [PDict [(u ''name'', PStr (u ''Political''))]] []
          = Inr v)"
  using overall_total [of "[PDict [(u ''name'', PStr (u ''Political''))]]" ascii_env "[]"]
  by simp

section \<open>Hotspot geometry\<close>

text \<open>Sequencing of computations that may raise: the first error is the result.\<close>

definition ebind :: "error + 'a \<Rightarrow> ('a \<Rightarrow> error + 'b) \<Rightarrow> error + 'b" where
  "ebind m f = (case m of Inl e \<Rightarrow> Inl e | Inr x \<Rightarrow> f x)"

text \<open>
  The geometry is computed in Python floats. The model leaves open what a float is (the
  type \<open>'f\<close>) and what the operations of the source on floats return: they are the fields
  of a record, and every statement with a free \<open>fl\<close> holds whatever they are, so also for
  IEEE doubles with their rounding, their infinities and NaN.

  \<^item> \<open>f_of_num r\<close> is \<^verbatim>\<open>float(x)\<close> for a number \<open>x\<close> of value \<open>r\<close>: the float itself when \<open>x\<close> is
    a float, the float nearest to \<open>r\<close> when \<open>x\<close> is an \<^verbatim>\<open>int\<close>, and \<open>None\<close> when Python raises
    \<^verbatim>\<open>OverflowError\<close>, which it does for an \<^verbatim>\<open>int\<close> that is too large. Where a number is
    written in decimal and no float has this value, like the default \<^verbatim>\<open>0.1\<close> of the source,
    it stands for the float nearest to it, which is what Python makes of the literal.
  \<^item> \<open>f_of_str s\<close> is \<^verbatim>\<open>float(s)\<close> for a string, \<open>None\<close> when Python raises \<^verbatim>\<open>ValueError\<close>.
  \<^item> \<open>f_lit r\<close> is the float that a literal of the source denotes (\<^verbatim>\<open>0.0\<close>, \<^verbatim>\<open>1.0\<close>,
    \<^verbatim>\<open>0.55\<close>, \<^verbatim>\<open>0.12\<close>), also the float that Python makes of the \<^verbatim>\<open>int\<close> literals \<^verbatim>\<open>0\<close> and
    \<^verbatim>\<open>2\<close> where the source compares a float with them or divides a float by them.
  \<^item> \<open>f_num x\<close> is the value of a finite float \<open>x\<close>, for storing it in a dictionary.
  \<^item> \<open>f_add\<close>, \<open>f_sub\<close>, \<open>f_mul\<close> and \<open>f_div\<close> are \<^verbatim>\<open>+\<close>, \<^verbatim>\<open>-\<close>, \<^verbatim>\<open>*\<close> and \<^verbatim>\<open>/\<close> on floats,
    \<open>f_hypot\<close> is \<^verbatim>\<open>math.hypot\<close> and \<open>f_lt\<close> is \<^verbatim>\<open><\<close>. On floats \<^verbatim>\<open>+\<close>, \<^verbatim>\<open>-\<close>, \<^verbatim>\<open>*\<close> and
    \<^verbatim>\<open>math.hypot\<close> raise nothing, and \<^verbatim>\<open>/\<close> raises only for a divisor that is zero; the
    source divides by \<^verbatim>\<open>2\<close> and by a float that it has found greater than zero.
\<close>

record 'f pyfloat =
  f_of_num :: "real \<Rightarrow> 'f option"
  f_of_str :: "ustr \<Rightarrow> 'f option"
  f_lit :: "real \<Rightarrow> 'f"
  f_num :: "'f \<Rightarrow> real"
  f_add :: "'f \<Rightarrow> 'f \<Rightarrow> 'f"
  f_sub :: "'f \<Rightarrow> 'f \<Rightarrow> 'f"
  f_mul :: "'f \<Rightarrow> 'f \<Rightarrow> 'f"
  f_div :: "'f \<Rightarrow> 'f \<Rightarrow> 'f"
  f_hypot :: "'f \<Rightarrow> 'f \<Rightarrow> 'f"
  f_lt :: "'f \<Rightarrow> 'f \<Rightarrow> bool"

text \<open>
  \<^verbatim>\<open>float(v)\<close>: a number is converted, which raises \<^verbatim>\<open>OverflowError\<close> for an \<^verbatim>\<open>int\<close> that
  is too large; a boolean is 0.0 or 1.0, a string is parsed, and \<^verbatim>\<open>None\<close>, a list or a
  dictionary raise \<^verbatim>\<open>TypeError\<close>.
\<close>

fun py_float :: "'f pyfloat \<Rightarrow> pyval \<Rightarrow> error + 'f" where
  "py_float fl PNone = Inl TypeError"
| "py_float fl (PBool b) = Inr (f_lit fl (if b then 1 else 0))"
| "py_float fl (PNum r) = (case f_of_num fl r of None \<Rightarrow> Inl OverflowError | Some x \<Rightarrow> Inr x)"
| "py_float fl (PStr s) = (case f_of_str fl s of None \<Rightarrow> Inl ValueError | Some x \<Rightarrow> Inr x)"
| "py_float fl (PList xs) = Inl TypeError"
| "py_float fl (PDict kvs) = Inl TypeError"

text \<open>
  \<^verbatim>\<open>max(a, b)\<close> and \<^verbatim>\<open>min(a, b)\<close> of two floats: Python returns the first argument unless
  the second is greater, respectively less.
\<close>

definition py_max :: "'f pyfloat \<Rightarrow> 'f \<Rightarrow> 'f \<Rightarrow> 'f" where
  "py_max fl a b = (if f_lt fl a b then b else a)"

definition py_min :: "'f pyfloat \<Rightarrow> 'f \<Rightarrow> 'f \<Rightarrow> 'f" where
  "py_min fl a b = (if f_lt fl b a then b else a)"

text \<open>\<^verbatim>\<open>v.lower()\<close>: only a string has the method.\<close>

fun py_lower :: "pyenv \<Rightarrow> pyval \<Rightarrow> error + ustr" where
  "py_lower env (PStr s) = Inr (str_lower env s)"
| "py_lower env v = Inl AttributeError"

text \<open>
  \<^verbatim>\<open>d[k] = v\<close>: the value of an existing key is replaced in place, a new key is added at
  the end. \<^verbatim>\<open>d[k]\<close> raises \<^verbatim>\<open>KeyError\<close> for a missing key.
\<close>

fun py_setitem :: "pydict \<Rightarrow> ustr \<Rightarrow> pyval \<Rightarrow> pydict" where
  "py_setitem [] k v = [(k, v)]"
| "py_setitem ((k', v') # d) k v =
     (if k' = k then (k, v) # d else (k', v') # py_setitem d k v)"

definition py_index :: "pydict \<Rightarrow> ustr \<Rightarrow> error + pyval" where
  "py_index d k = (case map_of d k of None \<Rightarrow> Inl KeyError | Some v \<Rightarrow> Inr v)"

text \<open>
  Iterating a value (\<^verbatim>\<open>*v\<close> inside a display): a list gives its elements, a string its
  characters, a dictionary its keys; \<^verbatim>\<open>None\<close>, a boolean and a number raise \<^verbatim>\<open>TypeError\<close>.
\<close>

fun py_iter :: "pyval \<Rightarrow> error + pyval list" where
  "py_iter (PList xs) = Inr xs"
| "py_iter (PStr s) = Inr (map (\<lambda>c. PStr [c]) s)"
| "py_iter (PDict kvs) = Inr (map (\<lambda>(k, v). PStr k) kvs)"
| "py_iter v = Inl TypeError"

text \<open>
  Building a set from a sequence of values. A list or a dictionary is not hashable
  (\<^verbatim>\<open>TypeError\<close>). Two elements are the same element of a set when they are equal in Python,
  where \<^verbatim>\<open>True == 1\<close> and \<^verbatim>\<open>False == 0\<close>; the element inserted first stays. Python does not
  fix the order in which a set is enumerated: the model enumerates in order of insertion,
  and the statements below about the result of a set speak of its elements only.
\<close>

fun hashable :: "pyval \<Rightarrow> bool" where
  "hashable (PList xs) = False"
| "hashable (PDict kvs) = False"
| "hashable v = True"

fun py_key :: "pyval \<Rightarrow> pyval" where
  "py_key (PBool b) = PNum (if b then 1 else 0)"
| "py_key v = v"

definition set_add :: "pyval list \<Rightarrow> pyval \<Rightarrow> pyval list" where
  "set_add s v = (if py_key v \<in> py_key ` set s then s else s @ [v])"

definition py_set :: "pyval list \<Rightarrow> error + pyval list" where
  "py_set xs =
     (if list_all hashable xs then Inr (foldl set_add [] xs) else Inl TypeError)"

type_synonym 'f box = "'f \<times> 'f \<times> 'f \<times> 'f"

definition bbox :: "'f pyfloat \<Rightarrow> pyenv \<Rightarrow> pydict \<Rightarrow> error + 'f box" where
  "bbox fl env h =
     ebind (py_lower env (py_or (py_get h (u ''shape'') PNone) (PStr (u ''circle'')))) (\<lambda>shape.
       if shape = u ''rect'' then
         ebind (py_float fl (py_get h (u ''x'') (PNum 0))) (\<lambda>x.
         ebind (py_float fl (py_get h (u ''y'') (PNum 0))) (\<lambda>y.
         ebind (py_float fl (py_get h (u ''w'') (PNum 0))) (\<lambda>w.
         ebind (py_float fl (py_get h (u ''h'') (PNum 0))) (\<lambda>hgt.
           Inr (x, y, f_add fl x w, f_add fl y hgt)))))
       else
         ebind (py_float fl (py_get h (u ''cx'') (PNum 0.5))) (\<lambda>cx.
         ebind (py_float fl (py_get h (u ''cy'') (PNum 0.5))) (\<lambda>cy.
         ebind (py_float fl (py_get h (u ''r'') (PNum 0.1))) (\<lambda>r.
           Inr (f_sub fl cx r, f_sub fl cy r, f_add fl cx r, f_add fl cy r)))))"

fun area :: "'f pyfloat \<Rightarrow> 'f box \<Rightarrow> 'f" where
  "area fl (x1, y1, x2, y2) =
     f_mul fl (py_max fl (f_lit fl 0) (f_sub fl x2 x1)) (py_max fl (f_lit fl 0) (f_sub fl y2 y1))"

fun iou :: "'f pyfloat \<Rightarrow> 'f box \<Rightarrow> 'f box \<Rightarrow> 'f" where
  "iou fl (a1, b1, c1, d1) (a2, b2, c2, d2) =
     (let ix1 = py_max fl a1 a2; iy1 = py_max fl b1 b2;
          ix2 = py_min fl c1 c2; iy2 = py_min fl d1 d2;
          iw = py_max fl (f_lit fl 0) (f_sub fl ix2 ix1);
          ih = py_max fl (f_lit fl 0) (f_sub fl iy2 iy1);
          inter = f_mul fl iw ih;
          union = f_sub fl (f_add fl (area fl (a1, b1, c1, d1)) (area fl (a2, b2, c2, d2))) inter
      in if f_lt fl (f_lit fl 0) union then f_div fl inter union else f_lit fl 0)"

text \<open>\<^verbatim>\<open>math.hypot\<close> of the differences of the two centres.\<close>

fun centerdist :: "'f pyfloat \<Rightarrow> 'f box \<Rightarrow> 'f box \<Rightarrow> 'f" where
  "centerdist fl (a1, b1, c1, d1) (a2, b2, c2, d2) =
     f_hypot fl
       (f_sub fl (f_div fl (f_add fl a1 c1) (f_lit fl 2)) (f_div fl (f_add fl a2 c2) (f_lit fl 2)))
       (f_sub fl (f_div fl (f_add fl b1 d1) (f_lit fl 2)) (f_div fl (f_add fl b2 d2) (f_lit fl 2)))"

text \<open>
  The test of the inner loop of \<^verbatim>\<open>dedupe_hotspots\<close>,
  \<^verbatim>\<open>_iou(b, bk) > 0.55 or _centerdist(b, bk) < 0.12\<close>.
\<close>

definition matches :: "'f pyfloat \<Rightarrow> 'f box \<Rightarrow> 'f box \<Rightarrow> bool" where
  "matches fl b bk \<longleftrightarrow>
     f_lt fl (f_lit fl 0.55) (iou fl b bk) \<or> f_lt fl (centerdist fl b bk) (f_lit fl 0.12)"

text \<open>
  The two closing statements of \<^verbatim>\<open>_merge\<close>, for \<^verbatim>\<open>key\<close> the label and the severity:
  \<^verbatim>\<open>if not out.get(key) and b.get(key): out[key] = b[key]\<close>.
\<close>

definition adopt :: "ustr \<Rightarrow> pydict \<Rightarrow> pydict \<Rightarrow> error + pydict" where
  "adopt key out b =
     (if \<not> truthy (py_get out key PNone) \<and> truthy (py_get b key PNone)
      then ebind (py_index b key) (\<lambda>v. Inr (py_setitem out key v))
      else Inr out)"

text \<open>
  \<^verbatim>\<open>_merge(a, b)\<close>. The risks are the list of one set built from both lists; the suggested
  edits are the list of the set of \<^verbatim>\<open>a\<close>'s edits followed by \<^verbatim>\<open>b\<close>'s edits as they are.
\<close>

definition merge :: "pydict \<Rightarrow> pydict \<Rightarrow> error + pydict" where
  "merge a b =
     ebind (py_iter (py_or (py_get a (u ''risks'') PNone) (PList []))) (\<lambda>ra.
     ebind (py_iter (py_or (py_get b (u ''risks'') PNone) (PList []))) (\<lambda>rb.
     ebind (py_set (ra @ rb)) (\<lambda>rs.
       let out1 = py_setitem a (u ''risks'') (PList rs) in
     ebind (py_iter (py_or (py_get out1 (u ''suggested_edits'') PNone) (PList []))) (\<lambda>ea.
     ebind (py_set ea) (\<lambda>es.
     ebind (py_iter (py_or (py_get b (u ''suggested_edits'') PNone) (PList []))) (\<lambda>eb.
       let out2 = py_setitem out1 (u ''suggested_edits'') (PList (es @ eb)) in
     ebind (adopt (u ''label'') out2 b) (\<lambda>out3.
     adopt (u ''severity'') out3 b)))))))"

text \<open>
  The clamping of a new entry: for each of the seven keys that is in the dictionary,
  \<^verbatim>\<open>float\<close> of the value is clamped to 0..1 and the float is stored; when \<^verbatim>\<open>float\<close>
  raises, whatever it raises, the value stays as it is.
\<close>

definition GEOM_KEYS :: "ustr list" where
  "GEOM_KEYS = [u ''x'', u ''y'', u ''w'', u ''h'', u ''cx'', u ''cy'', u ''r'']"

definition clamp_key :: "'f pyfloat \<Rightarrow> ustr \<Rightarrow> pydict \<Rightarrow> pydict" where
  "clamp_key fl key hh =
     (case map_of hh key of
        None \<Rightarrow> hh
      | Some v \<Rightarrow>
          (case py_float fl v of
             Inl e \<Rightarrow> hh
           | Inr x \<Rightarrow>
               py_setitem hh key
                 (PNum (f_num fl (py_max fl (f_lit fl 0) (py_min fl (f_lit fl 1) x))))))"

definition clamp_geometry :: "'f pyfloat \<Rightarrow> pydict \<Rightarrow> pydict" where
  "clamp_geometry fl h = fold (clamp_key fl) GEOM_KEYS h"

text \<open>
  The inner loop over \<^verbatim>\<open>kept\<close>: \<open>Some\<close> of the updated list when the hotspot was merged
  into the first entry that matches, \<open>None\<close> when no entry matches.
\<close>

fun absorb ::
  "'f pyfloat \<Rightarrow> pyenv \<Rightarrow> 'f box \<Rightarrow> pydict \<Rightarrow> pydict list \<Rightarrow> error + pydict list option" where
  "absorb fl env b h [] = Inr None"
| "absorb fl env b h (k # ks) =
     ebind (bbox fl env k) (\<lambda>bk.
       if matches fl b bk then ebind (merge k h) (\<lambda>m. Inr (Some (m # ks)))
       else ebind (absorb fl env b h ks) (\<lambda>r. Inr (map_option ((#) k) r)))"

text \<open>The outer loop over the sorted hotspots.\<close>

fun dedupe_loop ::
  "'f pyfloat \<Rightarrow> pyenv \<Rightarrow> pydict list \<Rightarrow> pydict list \<Rightarrow> error + pydict list" where
  "dedupe_loop fl env kept [] = Inr kept"
| "dedupe_loop fl env kept (h # hs) =
     ebind (bbox fl env h) (\<lambda>b.
     ebind (absorb fl env b h kept) (\<lambda>r.
       case r of
         Some kept' \<Rightarrow> dedupe_loop fl env kept' hs
       | None \<Rightarrow> dedupe_loop fl env (kept @ [clamp_geometry fl h]) hs))"

text \<open>\<^verbatim>\<open>isinstance(h, dict)\<close> and \<^verbatim>\<open>[h for h in hotspots if isinstance(h, dict)]\<close>.\<close>

fun is_dict :: "pyval \<Rightarrow> bool" where
  "is_dict (PDict kvs) = True"
| "is_dict v = False"

fun dicts_of :: "pyval list \<Rightarrow> pydict list" where
  "dicts_of [] = []"
| "dicts_of (PDict kvs # xs) = kvs # dicts_of xs"
| "dicts_of (v # xs) = dicts_of xs"

text \<open>The sort key \<^verbatim>\<open>lambda h: _area(_bbox(h))\<close>, computed for every element before sorting.\<close>

definition area_key :: "'f pyfloat \<Rightarrow> pyenv \<Rightarrow> pydict \<Rightarrow> error + 'f" where
  "area_key fl env h = ebind (bbox fl env h) (\<lambda>b. Inr (area fl b))"

fun area_keys :: "'f pyfloat \<Rightarrow> pyenv \<Rightarrow> pydict list \<Rightarrow> error + 'f list" where
  "area_keys fl env [] = Inr []"
| "area_keys fl env (h # hs) =
     ebind (area_key fl env h) (\<lambda>a. ebind (area_keys fl env hs) (\<lambda>as. Inr (a # as)))"

text \<open>
  \<^verbatim>\<open>sorted(hs, key=..., reverse=True)\<close>: descending by key, elements with equal keys in
  their original order. Python compares the keys with \<^verbatim>\<open><\<close> only. The model builds the
  list by insertion from the right, placing an element before the first one whose key is
  not greater; this is the list Python returns whenever \<^verbatim>\<open><\<close> orders the keys, that is when
  no key is NaN. With a NaN among the keys (the area of a box with an infinite and a zero
  side) the list Python returns depends on its sorting algorithm and is not modelled.
\<close>

fun insert_desc :: "'f pyfloat \<Rightarrow> 'f \<times> 'a \<Rightarrow> ('f \<times> 'a) list \<Rightarrow> ('f \<times> 'a) list" where
  "insert_desc fl p [] = [p]"
| "insert_desc fl p (q # qs) =
     (if f_lt fl (fst p) (fst q) then q # insert_desc fl p qs else p # q # qs)"

definition sorted_desc :: "'f pyfloat \<Rightarrow> 'f list \<Rightarrow> 'a list \<Rightarrow> 'a list" where
  "sorted_desc fl keys xs = map snd (foldr (insert_desc fl) (zip keys xs) [])"

definition dedupe_hotspots :: "'f pyfloat \<Rightarrow> pyenv \<Rightarrow> pyval list \<Rightarrow> error + pydict list" where
  "dedupe_hotspots fl env hotspots =
     (let hs = dicts_of hotspots in
      ebind (area_keys fl env hs) (\<lambda>keys.
        let hs_sorted = sorted_desc fl keys hs in
        ebind (dedupe_loop fl env [] hs_sorted) (\<lambda>kept. Inr (take 12 kept))))"

text \<open>
  For stating the properties of the result: a geometry field is in the unit interval when
  its value, if \<^verbatim>\<open>float\<close> can convert it, is a number between 0 and 1.
\<close>

definition field_ok :: "'f pyfloat \<Rightarrow> pydict \<Rightarrow> ustr \<Rightarrow> bool" where
  "field_ok fl h k \<longleftrightarrow>
     (\<forall>v x. map_of h k = Some v \<longrightarrow> py_float fl v = Inr x \<longrightarrow>
        (\<exists>r. v = PNum r \<and> 0 \<le> r \<and> r \<le> 1))"

definition geom_ok :: "'f pyfloat \<Rightarrow> pydict \<Rightarrow> bool" where
  "geom_ok fl h \<longleftrightarrow> (\<forall>k\<in>set GEOM_KEYS. field_ok fl h k)"

text \<open>
  What the statements about clamping assume of the floats: the value of \<^verbatim>\<open>0.0\<close> is 0, the
  value of \<^verbatim>\<open>1.0\<close> is 1, a float that \<^verbatim>\<open><\<close> finds between \<^verbatim>\<open>0.0\<close> and \<^verbatim>\<open>1.0\<close> has a value
  between 0 and 1, and \<^verbatim>\<open>float\<close> converts every number between 0 and 1.
\<close>

definition unit_sound :: "'f pyfloat \<Rightarrow> bool" where
  "unit_sound fl \<longleftrightarrow>
     f_num fl (f_lit fl 0) = 0
     \<and> f_num fl (f_lit fl 1) = 1
     \<and> (\<forall>x. f_lt fl (f_lit fl 0) x \<and> f_lt fl x (f_lit fl 1) \<longrightarrow>
            0 < f_num fl x \<and> f_num fl x < 1)
     \<and> (\<forall>r. 0 \<le> r \<and> r \<le> 1 \<longrightarrow> f_of_num fl r \<noteq> None)"

text \<open>
  A hotspot as the data model has it: the shape is missing, \<^verbatim>\<open>None\<close> or a string, every
  geometry field that is present is a number that \<^verbatim>\<open>float\<close> converts (negative, zero or
  large, but no \<^verbatim>\<open>int\<close> beyond the range of floats), and the risks and the suggested edits
  are missing, \<^verbatim>\<open>None\<close> or a list of strings. The label, the severity and every other key
  may hold anything.
\<close>

fun float_num :: "'f pyfloat \<Rightarrow> pyval \<Rightarrow> bool" where
  "float_num fl (PNum r) = (f_of_num fl r \<noteq> None)"
| "float_num fl v = False"

fun is_str :: "pyval \<Rightarrow> bool" where
  "is_str (PStr s) = True"
| "is_str v = False"

fun str_list :: "pyval \<Rightarrow> bool" where
  "str_list PNone = True"
| "str_list (PList xs) = list_all is_str xs"
| "str_list v = False"

definition hotspot_typed :: "'f pyfloat \<Rightarrow> pydict \<Rightarrow> bool" where
  "hotspot_typed fl h \<longleftrightarrow>
     (case py_get h (u ''shape'') PNone of PNone \<Rightarrow> True | PStr s \<Rightarrow> True | _ \<Rightarrow> False)
     \<and> (\<forall>k\<in>set GEOM_KEYS. case map_of h k of None \<Rightarrow> True | Some v \<Rightarrow> float_num fl v)
     \<and> str_list (py_get h (u ''risks'') PNone)
     \<and> str_list (py_get h (u ''suggested_edits'') PNone)"

text \<open>
  Every geometry field that is present is a number between 0 and 1.
\<close>

definition in_unit :: "pydict \<Rightarrow> bool" where
  "in_unit h \<longleftrightarrow>
     (\<forall>k\<in>set GEOM_KEYS.
        case map_of h k of
          None \<Rightarrow> True
        | Some (PNum r) \<Rightarrow> 0 \<le> r \<and> r \<le> 1
        | Some v \<Rightarrow> False)"

text \<open>No two boxes at different positions of a list match, in either order.\<close>

fun apart :: "'f pyfloat \<Rightarrow> 'f box list \<Rightarrow> bool" where
  "apart fl [] = True"
| "apart fl (b # bs) =
     (list_all (\<lambda>c. \<not> matches fl b c \<and> \<not> matches fl c b) bs \<and> apart fl bs)"

text \<open>
  Two boxes that do not overlap and whose centres are far from each other: their
  intersection over union is \<^verbatim>\<open>0.0\<close> and the distance of their centres is greater than
  \<^verbatim>\<open>0.12\<close>. \<open>disjoint_far\<close> says so of any two boxes at different positions of a list, in
  either order.
\<close>

definition far_from :: "'f pyfloat \<Rightarrow> 'f box \<Rightarrow> 'f box \<Rightarrow> bool" where
  "far_from fl b c \<longleftrightarrow>
     iou fl b c = f_lit fl 0 \<and> f_lt fl (f_lit fl 0.12) (centerdist fl b c)"

fun disjoint_far :: "'f pyfloat \<Rightarrow> 'f box list \<Rightarrow> bool" where
  "disjoint_far fl [] = True"
| "disjoint_far fl (b # bs) =
     (list_all (\<lambda>c. far_from fl b c \<and> far_from fl c b) bs \<and> disjoint_far fl bs)"

text \<open>
  The keys of a list are pairwise different floats that \<^verbatim>\<open><\<close> orders: of two of them one
  is less than the other, and \<^verbatim>\<open><\<close> is transitive on them.
\<close>

definition ordered_keys :: "'f pyfloat \<Rightarrow> 'f list \<Rightarrow> bool" where
  "ordered_keys fl ks \<longleftrightarrow>
     distinct ks
     \<and> (\<forall>a\<in>set ks. \<forall>b\<in>set ks. a \<noteq> b \<longrightarrow> f_lt fl a b \<or> f_lt fl b a)
     \<and> (\<forall>a\<in>set ks. \<forall>b\<in>set ks. \<forall>c\<in>set ks. f_lt fl a b \<longrightarrow> f_lt fl b c \<longrightarrow> f_lt fl a c)"

text \<open>
  An instance of the floats for evaluating examples: a float is a real, the arithmetic is
  exact, and \<^verbatim>\<open>float\<close> raises \<^verbatim>\<open>OverflowError\<close> for the values Python raises it for, those
  from \<open>2 ^ 1024 - 2 ^ 970\<close> on in absolute value; no string parses as a float. On numbers
  that are fractions with a power of two as denominator, Python's sums, differences and
  products are exact as long as 53 binary digits hold the result, and so they are the
  ones of this instance.
\<close>

definition FLOAT_LIMIT :: real where
  "FLOAT_LIMIT = 2 ^ 1024 - 2 ^ 970"

definition exact_float :: "real pyfloat" where
  "exact_float = \<lparr>f_of_num = (\<lambda>r. if \<bar>r\<bar> < FLOAT_LIMIT then Some r else None),
     f_of_str = (\<lambda>s. None), f_lit = (\<lambda>r. r), f_num = (\<lambda>x. x),
     f_add = (\<lambda>a b. a + b), f_sub = (\<lambda>a b. a - b), f_mul = (\<lambda>a b. a * b),
     f_div = (\<lambda>a b. a / b), f_hypot = (\<lambda>a b. sqrt (a * a + b * b)),
     f_lt = (\<lambda>a b. a < b)\<rparr>"

section \<open>Evaluating the geometry\<close>

lemma sqrt_less_012: "sqrt x < 0.12 \<longleftrightarrow> x < 0.0144"
proof -
  have e: "sqrt (0.0144::real) = 0.12"
    by (rule real_sqrt_unique) (simp_all add: power2_eq_square)
  have "sqrt x < 0.12 \<longleftrightarrow> sqrt x < sqrt 0.0144"
    unfolding e by (rule refl)
  also have "\<dots> \<longleftrightarrow> x < 0.0144" by (rule real_sqrt_less_iff)
  finally show ?thesis .
qed

lemma sqrt_greater_012: "0.12 < sqrt x \<longleftrightarrow> 0.0144 < x"
proof -
  have e: "sqrt (0.0144::real) = 0.12"
    by (rule real_sqrt_unique) (simp_all add: power2_eq_square)
  have "0.12 < sqrt x \<longleftrightarrow> sqrt 0.0144 < sqrt x"
    unfolding e by (rule refl)
  also have "\<dots> \<longleftrightarrow> 0.0144 < x" by (rule real_sqrt_less_iff)
  finally show ?thesis .
qed

text \<open>The operations of the instance \<open>exact_float\<close>.\<close>

lemma exact_float_simps:
  "f_lit exact_float r = r"
  "f_num exact_float x = x"
  "f_add exact_float a b = a + b"
  "f_sub exact_float a b = a - b"
  "f_mul exact_float a b = a * b"
  "f_div exact_float a b = a / b"
  "f_hypot exact_float a b = sqrt (a * a + b * b)"
  "f_lt exact_float a b \<longleftrightarrow> a < b"
  "f_of_str exact_float s = None"
  by (simp_all add: exact_float_def)

lemma float_limit_large: "1000 < FLOAT_LIMIT"
  by (simp add: FLOAT_LIMIT_def)

lemma exact_of_num: "\<bar>r\<bar> \<le> 1000 \<Longrightarrow> f_of_num exact_float r = Some r"
  using float_limit_large by (simp add: exact_float_def)

lemma exact_max: "py_max exact_float a b = max a b"
  by (simp add: py_max_def exact_float_simps max_def)

lemma exact_min: "py_min exact_float a b = min a b"
  by (simp add: py_min_def exact_float_simps min_def)

text \<open>The tests on the distance of two centres without the square root.\<close>

lemma exact_matches:
  "matches exact_float (a1, b1, c1, d1) (a2, b2, c2, d2) \<longleftrightarrow>
     0.55 < iou exact_float (a1, b1, c1, d1) (a2, b2, c2, d2)
     \<or> ((a1 + c1) / 2 - (a2 + c2) / 2) * ((a1 + c1) / 2 - (a2 + c2) / 2)
        + ((b1 + d1) / 2 - (b2 + d2) / 2) * ((b1 + d1) / 2 - (b2 + d2) / 2) < 0.0144"
  unfolding matches_def centerdist.simps exact_float_simps sqrt_less_012 by (rule refl)

lemma exact_far:
  "far_from exact_float (a1, b1, c1, d1) (a2, b2, c2, d2) \<longleftrightarrow>
     iou exact_float (a1, b1, c1, d1) (a2, b2, c2, d2) = 0
     \<and> 0.0144 < ((a1 + c1) / 2 - (a2 + c2) / 2) * ((a1 + c1) / 2 - (a2 + c2) / 2)
        + ((b1 + d1) / 2 - (b2 + d2) / 2) * ((b1 + d1) / 2 - (b2 + d2) / 2)"
  unfolding far_from_def centerdist.simps exact_float_simps sqrt_greater_012 by (rule refl)

text \<open>On the instance the insertion is the one of the library's stable sort.\<close>

lemma exact_insert_desc:
  "insert_desc exact_float p qs = insort_key (\<lambda>(a, x). - a) p qs"
  by (induction qs) (auto simp: exact_float_simps case_prod_beta)

lemma exact_sorted_desc:
  "sorted_desc exact_float keys xs = map snd (sort_key (\<lambda>(a, x). - a) (zip keys xs))"
proof -
  have "foldr (insert_desc exact_float) zs [] = foldr (insort_key (\<lambda>(a, x). - a)) zs []"
    for zs :: "(real \<times> 'a) list"
    by (induction zs) (simp_all add: exact_insert_desc)
  then show ?thesis
    by (simp add: sorted_desc_def sort_key_def)
qed

lemmas exact_simps = exact_float_simps exact_max exact_min exact_matches exact_far Let_def

lemmas eval_simps =
  bbox_def py_get_def py_or_def ebind_def ascii_env_def u_def ascii_lower_def
  dedupe_hotspots_def area_key_def exact_sorted_desc exact_matches merge_def py_set_def
  set_add_def adopt_def clamp_geometry_def clamp_key_def GEOM_KEYS_def py_index_def Let_def
  exact_float_simps exact_of_num exact_max exact_min exact_far

section \<open>Dictionaries: what an update changes\<close>

lemma map_of_setitem:
  "map_of (py_setitem d k v) k' = (if k' = k then Some v else map_of d k')"
  by (induction d k v rule: py_setitem.induct) auto

lemma setitem_same:
  "map_of d k = Some v \<Longrightarrow> py_setitem d k v = d"
  by (induction d k v rule: py_setitem.induct) (auto split: if_splits)

lemma py_get_setitem:
  "py_get (py_setitem d k v) k' dflt = (if k' = k then v else py_get d k' dflt)"
  by (simp add: py_get_def map_of_setitem)

text \<open>
  \<open>bbox\<close> reads a dictionary through the shape and the seven geometry keys only.
\<close>

definition geom_view :: "pydict \<Rightarrow> ustr \<Rightarrow> pyval option" where
  "geom_view h k = (if k = u ''shape'' \<or> k \<in> set GEOM_KEYS then map_of h k else None)"

lemma bbox_cong:
  assumes "geom_view h = geom_view h'"
  shows "bbox fl env h = bbox fl env h'"
proof -
  have eq: "\<And>k. k = u ''shape'' \<or> k \<in> set GEOM_KEYS \<Longrightarrow> map_of h k = map_of h' k"
    using assms by (metis geom_view_def)
  have g: "py_get h (u ''shape'') PNone = py_get h' (u ''shape'') PNone"
    "py_get h (u ''x'') (PNum 0) = py_get h' (u ''x'') (PNum 0)"
    "py_get h (u ''y'') (PNum 0) = py_get h' (u ''y'') (PNum 0)"
    "py_get h (u ''w'') (PNum 0) = py_get h' (u ''w'') (PNum 0)"
    "py_get h (u ''h'') (PNum 0) = py_get h' (u ''h'') (PNum 0)"
    "py_get h (u ''cx'') (PNum 0.5) = py_get h' (u ''cx'') (PNum 0.5)"
    "py_get h (u ''cy'') (PNum 0.5) = py_get h' (u ''cy'') (PNum 0.5)"
    "py_get h (u ''r'') (PNum 0.1) = py_get h' (u ''r'') (PNum 0.1)"
    by (simp_all add: py_get_def eq GEOM_KEYS_def)
  show ?thesis
    unfolding bbox_def g by (rule refl)
qed

lemma geom_view_setitem:
  assumes "k \<noteq> u ''shape''" and "k \<notin> set GEOM_KEYS"
  shows "geom_view (py_setitem d k v) = geom_view d"
proof
  fix k'
  show "geom_view (py_setitem d k v) k' = geom_view d k'"
    using assms by (auto simp: geom_view_def map_of_setitem)
qed

text \<open>\<open>merge\<close> leaves the shape and the geometry of the kept entry as they are.\<close>

lemma merge_geom_view:
  assumes "merge a b = Inr m"
  shows "geom_view m = geom_view a"
proof -
  have k1: "u ''risks'' \<noteq> u ''shape''" "u ''risks'' \<notin> set GEOM_KEYS"
    and k2: "u ''suggested_edits'' \<noteq> u ''shape''" "u ''suggested_edits'' \<notin> set GEOM_KEYS"
    and k3: "u ''label'' \<noteq> u ''shape''" "u ''label'' \<notin> set GEOM_KEYS"
    and k4: "u ''severity'' \<noteq> u ''shape''" "u ''severity'' \<notin> set GEOM_KEYS"
    by (simp_all add: GEOM_KEYS_def)
  note gv = geom_view_setitem [OF k1] geom_view_setitem [OF k2]
    geom_view_setitem [OF k3] geom_view_setitem [OF k4]
  have ad: "geom_view d1 = geom_view d0"
    if "adopt key d0 b = Inr d1" and "key \<noteq> u ''shape''" and "key \<notin> set GEOM_KEYS"
    for key d0 d1
    using that by (auto simp: adopt_def ebind_def geom_view_setitem split: if_splits sum.splits)
  from assms obtain rs es eb o3 where
    o3: "adopt (u ''label'')
      (py_setitem (py_setitem a (u ''risks'') (PList rs)) (u ''suggested_edits'')
        (PList (es @ eb))) b = Inr o3"
    and m: "adopt (u ''severity'') o3 b = Inr m"
    unfolding merge_def ebind_def Let_def
    by (auto split: sum.splits)
  have "geom_view m = geom_view o3" by (rule ad [OF m k4])
  also have "\<dots> = geom_view (py_setitem (py_setitem a (u ''risks'') (PList rs))
      (u ''suggested_edits'') (PList (es @ eb)))"
    by (rule ad [OF o3 k3])
  also have "\<dots> = geom_view a" by (simp only: gv)
  finally show ?thesis .
qed

lemma merge_bbox: "merge a b = Inr m \<Longrightarrow> bbox fl env m = bbox fl env a"
  by (rule bbox_cong) (rule merge_geom_view)

lemma merge_map_of_geom:
  assumes "merge a b = Inr m" and "k \<in> set GEOM_KEYS"
  shows "map_of m k = map_of a k"
proof -
  have "geom_view m k = geom_view a k"
    using merge_geom_view [OF assms(1)] by simp
  with assms(2) show ?thesis by (simp add: geom_view_def)
qed

section \<open>Non-dictionary entries\<close>

lemma dicts_of_filter: "dicts_of (filter is_dict xs) = dicts_of xs"
  by (induction xs rule: dicts_of.induct) simp_all

lemma filter_is_dict: "filter is_dict xs = map PDict (dicts_of xs)"
  by (induction xs rule: dicts_of.induct) simp_all

lemma dicts_of_none: "\<forall>x\<in>set xs. \<not> is_dict x \<Longrightarrow> dicts_of xs = []"
  by (induction xs rule: dicts_of.induct) simp_all

text \<open>
  C10. \<open>dedupe_hotspots\<close> gives the same result on a list and on its sublist of
  dictionaries, which is all it reads of the list; entries that are not dictionaries
  (strings, numbers, \<^verbatim>\<open>None\<close>) raise nothing, and a list without a dictionary gives the
  empty result.
\<close>

theorem dedupe_ignores_non_dicts:
  "dedupe_hotspots fl env xs = dedupe_hotspots fl env (filter is_dict xs)
    \<and> filter is_dict xs = map PDict (dicts_of xs)
    \<and> ((\<forall>x\<in>set xs. \<not> is_dict x) \<longrightarrow> dedupe_hotspots fl env xs = Inr [])"
proof -
  have "dedupe_hotspots fl env xs = dedupe_hotspots fl env (filter is_dict xs)"
    by (simp add: dedupe_hotspots_def dicts_of_filter)
  moreover have "(\<forall>x\<in>set xs. \<not> is_dict x) \<longrightarrow> dedupe_hotspots fl env xs = Inr []"
    by (simp add: dedupe_hotspots_def dicts_of_none ebind_def sorted_desc_def)
  ultimately show ?thesis
    using filter_is_dict by blast
qed

theorem dedupe_ignores_non_dicts_witness:
  "list_all (\<lambda>x. \<not> is_dict x) [PStr (u ''note''), PNum 3, PNone, PList []]
    \<and> dedupe_hotspots exact_float ascii_env [PStr (u ''note''), PNum 3, PNone, PList []]
        = Inr []"
  using dedupe_ignores_non_dicts
    [of exact_float ascii_env "[PStr (u ''note''), PNum 3, PNone, PList []]"]
  by auto

section \<open>Clamping\<close>

lemma clamp_unit:
  assumes "unit_sound fl"
  shows "0 \<le> f_num fl (py_max fl (f_lit fl 0) (py_min fl (f_lit fl 1) x))
    \<and> f_num fl (py_max fl (f_lit fl 0) (py_min fl (f_lit fl 1) x)) \<le> 1"
proof -
  from assms have z: "f_num fl (f_lit fl 0) = 0" and o: "f_num fl (f_lit fl 1) = 1"
    and b: "\<And>y. f_lt fl (f_lit fl 0) y \<Longrightarrow> f_lt fl y (f_lit fl 1)
      \<Longrightarrow> 0 < f_num fl y \<and> f_num fl y < 1"
    by (simp_all add: unit_sound_def)
  let ?m = "py_min fl (f_lit fl 1) x"
  show ?thesis
  proof (cases "f_lt fl (f_lit fl 0) ?m")
    case False
    then have "py_max fl (f_lit fl 0) ?m = f_lit fl 0" by (simp add: py_max_def)
    then show ?thesis by (simp add: z)
  next
    case True
    then have c: "py_max fl (f_lit fl 0) ?m = ?m" by (simp add: py_max_def)
    show ?thesis
    proof (cases "f_lt fl x (f_lit fl 1)")
      case False
      then have "?m = f_lit fl 1" by (simp add: py_min_def)
      with c have e: "py_max fl (f_lit fl 0) ?m = f_lit fl 1" by simp
      show ?thesis unfolding e by (simp add: o)
    next
      case lt: True
      then have m: "?m = x" by (simp add: py_min_def)
      with c have e: "py_max fl (f_lit fl 0) ?m = x" by simp
      from True m have "f_lt fl (f_lit fl 0) x" by simp
      from b [OF this lt] show ?thesis unfolding e by simp
    qed
  qed
qed

lemma clamp_key_field:
  assumes "unit_sound fl" and "k = key \<or> field_ok fl h k"
  shows "field_ok fl (clamp_key fl key h) k"
proof (cases "map_of h key")
  case None
  then have "clamp_key fl key h = h" by (simp add: clamp_key_def)
  moreover have "k = key \<Longrightarrow> field_ok fl h k"
    using None by (simp add: field_ok_def)
  ultimately show ?thesis using assms(2) by auto
next
  case (Some v)
  show ?thesis
  proof (cases "py_float fl v")
    case (Inl e)
    then have "clamp_key fl key h = h" using Some by (simp add: clamp_key_def)
    moreover have "k = key \<Longrightarrow> field_ok fl h k"
      using Some Inl by (simp add: field_ok_def)
    ultimately show ?thesis using assms(2) by auto
  next
    case (Inr x)
    let ?c = "f_num fl (py_max fl (f_lit fl 0) (py_min fl (f_lit fl 1) x))"
    from Inr have ck: "clamp_key fl key h = py_setitem h key (PNum ?c)"
      using Some by (simp add: clamp_key_def)
    show ?thesis
    proof (cases "k = key")
      case True
      with clamp_unit [OF assms(1), of x] show ?thesis
        by (simp add: ck field_ok_def map_of_setitem)
    next
      case False
      with assms(2) have "field_ok fl h k" by simp
      with False show ?thesis by (simp add: ck field_ok_def map_of_setitem)
    qed
  qed
qed

lemma fold_clamp_field:
  assumes "unit_sound fl"
  shows "k \<in> set ks \<or> field_ok fl h k \<Longrightarrow> field_ok fl (fold (clamp_key fl) ks h) k"
proof (induction ks arbitrary: h)
  case Nil
  then show ?case by simp
next
  case (Cons key ks)
  have "k \<in> set ks \<or> field_ok fl (clamp_key fl key h) k"
    using Cons.prems clamp_key_field [OF assms, of k key h] by auto
  from Cons.IH [OF this] show ?case by simp
qed

lemma clamp_geometry_ok: "unit_sound fl \<Longrightarrow> geom_ok fl (clamp_geometry fl h)"
  by (simp add: geom_ok_def clamp_geometry_def fold_clamp_field)

lemma merge_geom_ok:
  assumes "merge a b = Inr m" and "geom_ok fl a"
  shows "geom_ok fl m"
  using assms(2) merge_map_of_geom [OF assms(1)]
  by (simp add: geom_ok_def field_ok_def)

lemma absorb_geom_ok:
  assumes "absorb fl env b h ks = Inr (Some ks')" and "\<forall>k\<in>set ks. geom_ok fl k"
  shows "\<forall>k\<in>set ks'. geom_ok fl k"
  using assms
proof (induction ks arbitrary: ks')
  case Nil
  then show ?case by simp
next
  case (Cons k ks)
  from Cons.prems(1) obtain bk where bk: "bbox fl env k = Inr bk"
    by (auto simp: ebind_def split: sum.splits)
  show ?case
  proof (cases "matches fl b bk")
    case True
    with Cons.prems(1) bk obtain m where m: "merge k h = Inr m" and ks': "ks' = m # ks"
      by (auto simp: ebind_def split: sum.splits)
    from merge_geom_ok [OF m, of fl] Cons.prems(2) have "geom_ok fl m" by simp
    with ks' Cons.prems(2) show ?thesis by simp
  next
    case False
    with Cons.prems(1) bk obtain r where r: "absorb fl env b h ks = Inr (Some r)"
      and ks': "ks' = k # r"
      by (auto simp: ebind_def split: sum.splits option.splits)
    from Cons.IH [OF r] Cons.prems(2) have "\<forall>k\<in>set r. geom_ok fl k" by simp
    with ks' Cons.prems(2) show ?thesis by simp
  qed
qed

lemma dedupe_loop_geom_ok:
  assumes us: "unit_sound fl"
  assumes "dedupe_loop fl env kept hs = Inr out" and "\<forall>k\<in>set kept. geom_ok fl k"
  shows "\<forall>k\<in>set out. geom_ok fl k"
  using assms(2,3)
proof (induction hs arbitrary: kept)
  case Nil
  then show ?case by simp
next
  case (Cons h hs)
  from Cons.prems(1) obtain b r where b: "bbox fl env h = Inr b"
    and r: "absorb fl env b h kept = Inr r"
    by (auto simp: ebind_def split: sum.splits)
  show ?case
  proof (cases r)
    case None
    with Cons.prems(1) b r
    have loop: "dedupe_loop fl env (kept @ [clamp_geometry fl h]) hs = Inr out"
      by (simp add: ebind_def)
    have "\<forall>k\<in>set (kept @ [clamp_geometry fl h]). geom_ok fl k"
      using Cons.prems(2) clamp_geometry_ok [OF us] by simp
    from Cons.IH [OF loop this] show ?thesis .
  next
    case (Some kept')
    with Cons.prems(1) b r have loop: "dedupe_loop fl env kept' hs = Inr out"
      by (simp add: ebind_def)
    from r Some have "absorb fl env b h kept = Inr (Some kept')" by simp
    from absorb_geom_ok [OF this Cons.prems(2)] have "\<forall>k\<in>set kept'. geom_ok fl k" .
    from Cons.IH [OF loop this] show ?thesis .
  qed
qed

lemma dedupe_geom_ok:
  assumes us: "unit_sound fl" and "dedupe_hotspots fl env xs = Inr out"
  shows "\<forall>h\<in>set out. geom_ok fl h"
proof -
  from assms(2) obtain keys kept where
    loop: "dedupe_loop fl env [] (sorted_desc fl keys (dicts_of xs)) = Inr kept"
    and out: "out = take 12 kept"
    by (auto simp: dedupe_hotspots_def ebind_def Let_def split: sum.splits)
  from dedupe_loop_geom_ok [OF us loop] have "\<forall>k\<in>set kept. geom_ok fl k" by simp
  then show ?thesis
    unfolding out by (meson in_set_takeD)
qed

section \<open>What a merge produces\<close>

lemma foldl_set_add_set:
  "py_key ` set (foldl set_add acc xs) = py_key ` (set acc \<union> set xs)"
proof (induction xs arbitrary: acc)
  case Nil
  show ?case by simp
next
  case (Cons x xs)
  have "py_key ` set (set_add acc x) = py_key ` (set acc \<union> {x})"
    by (auto simp: set_add_def)
  then show ?case
    using Cons.IH [of "set_add acc x"] by (simp add: image_Un Un_assoc)
qed

lemma foldl_set_add_subset:
  "set (foldl set_add acc xs) \<subseteq> set acc \<union> set xs"
proof (induction xs arbitrary: acc)
  case Nil
  show ?case by simp
next
  case (Cons x xs)
  have "set (set_add acc x) \<subseteq> set acc \<union> {x}"
    by (auto simp: set_add_def)
  with Cons.IH [of "set_add acc x"] show ?case by auto
qed

lemma foldl_set_add_distinct:
  "distinct (map py_key acc) \<Longrightarrow> distinct (map py_key (foldl set_add acc xs))"
proof (induction xs arbitrary: acc)
  case Nil
  then show ?case by simp
next
  case (Cons x xs)
  have "distinct (map py_key (set_add acc x))"
    using Cons.prems by (auto simp: set_add_def)
  from Cons.IH [OF this] show ?case by simp
qed

text \<open>
  The list of a set holds every element of the input, up to Python's equality, once.
\<close>

lemma py_set_spec:
  assumes "py_set xs = Inr rs"
  shows "py_key ` set rs = py_key ` set xs" and "distinct (map py_key rs)"
    and "set rs \<subseteq> set xs"
proof -
  from assms have rs: "rs = foldl set_add [] xs"
    by (simp add: py_set_def split: if_splits)
  show "py_key ` set rs = py_key ` set xs"
    unfolding rs using foldl_set_add_set [of "[]" xs] by simp
  show "distinct (map py_key rs)"
    unfolding rs by (rule foldl_set_add_distinct) simp
  show "set rs \<subseteq> set xs"
    unfolding rs using foldl_set_add_subset [of "[]" xs] by simp
qed

lemma py_key_str: "is_str v \<Longrightarrow> py_key v = v"
  by (cases v) simp_all

lemma py_set_strings:
  assumes "py_set xs = Inr rs" and "list_all is_str xs"
  shows "set rs = set xs" and "distinct rs"
proof -
  have sub: "set rs \<subseteq> set xs" by (rule py_set_spec(3) [OF assms(1)])
  have xs: "py_key v = v" if "v \<in> set xs" for v
  proof -
    from assms(2) that have "is_str v" by (simp only: list_all_iff)
    then show ?thesis by (rule py_key_str)
  qed
  have rs: "py_key v = v" if "v \<in> set rs" for v
    using that sub xs by blast
  have e1: "py_key ` set rs = set rs"
  proof -
    have "py_key ` set rs = id ` set rs"
      by (rule image_cong) (simp_all only: rs id_apply)
    then show ?thesis by simp
  qed
  have e2: "py_key ` set xs = set xs"
  proof -
    have "py_key ` set xs = id ` set xs"
      by (rule image_cong) (simp_all only: xs id_apply)
    then show ?thesis by simp
  qed
  from py_set_spec(1) [OF assms(1)] show "set rs = set xs"
    unfolding e1 e2 .
  have "map py_key rs = rs"
    by (rule map_idI) (rule rs)
  with py_set_spec(2) [OF assms(1)] show "distinct rs" by (simp only:)
qed

lemma py_index_truthy:
  "truthy (py_get b k PNone) \<Longrightarrow> py_index b k = Inr (py_get b k PNone)"
  by (cases "map_of b k") (simp_all add: py_get_def py_index_def)

lemma adopt_spec:
  "\<exists>out'. adopt key out b = Inr out'
    \<and> (\<forall>k d. py_get out' k d =
         (if k = key \<and> \<not> truthy (py_get out key PNone) \<and> truthy (py_get b key PNone)
          then py_get b key PNone else py_get out k d))"
proof (cases "\<not> truthy (py_get out key PNone) \<and> truthy (py_get b key PNone)")
  case True
  then have "adopt key out b = Inr (py_setitem out key (py_get b key PNone))"
    by (simp add: adopt_def py_index_truthy ebind_def)
  with True show ?thesis by (simp add: py_get_setitem)
next
  case False
  then have "adopt key out b = Inr out" by (auto simp: adopt_def)
  with False show ?thesis by auto
qed

text \<open>
  The result of \<open>merge\<close> when the four lists can be read: the risks are the list of the
  set of both risk lists; the suggested edits are the list of the set of the kept entry's
  edits, followed by all edits of the incoming entry; label and severity are the kept
  entry's unless that is missing or false and the incoming one is not; shape and geometry
  are the kept entry's.
\<close>

lemma merge_spec:
  assumes ra: "py_iter (py_or (py_get a (u ''risks'') PNone) (PList [])) = Inr ra"
    and rb: "py_iter (py_or (py_get b (u ''risks'') PNone) (PList [])) = Inr rb"
    and rs: "py_set (ra @ rb) = Inr rs"
    and ea: "py_iter (py_or (py_get a (u ''suggested_edits'') PNone) (PList [])) = Inr ea"
    and es: "py_set ea = Inr es"
    and eb: "py_iter (py_or (py_get b (u ''suggested_edits'') PNone) (PList [])) = Inr eb"
  shows "\<exists>m. merge a b = Inr m
    \<and> py_get m (u ''risks'') PNone = PList rs
    \<and> py_get m (u ''suggested_edits'') PNone = PList (es @ eb)
    \<and> py_get m (u ''label'') PNone =
        (if \<not> truthy (py_get a (u ''label'') PNone) \<and> truthy (py_get b (u ''label'') PNone)
         then py_get b (u ''label'') PNone else py_get a (u ''label'') PNone)
    \<and> py_get m (u ''severity'') PNone =
        (if \<not> truthy (py_get a (u ''severity'') PNone)
            \<and> truthy (py_get b (u ''severity'') PNone)
         then py_get b (u ''severity'') PNone else py_get a (u ''severity'') PNone)
    \<and> geom_view m = geom_view a"
proof -
  let ?o2 = "py_setitem (py_setitem a (u ''risks'') (PList rs))
    (u ''suggested_edits'') (PList (es @ eb))"
  have bind: "\<And>x f. ebind (Inr x) f = f x"
    by (simp add: ebind_def)
  obtain o3 where o3: "adopt (u ''label'') ?o2 b = Inr o3"
    and g3: "\<And>k d. py_get o3 k d =
      (if k = u ''label'' \<and> \<not> truthy (py_get ?o2 (u ''label'') PNone)
          \<and> truthy (py_get b (u ''label'') PNone)
       then py_get b (u ''label'') PNone else py_get ?o2 k d)"
    using adopt_spec [of "u ''label''" ?o2 b] by (elim exE conjE) simp
  obtain o4 where o4: "adopt (u ''severity'') o3 b = Inr o4"
    and g4: "\<And>k d. py_get o4 k d =
      (if k = u ''severity'' \<and> \<not> truthy (py_get o3 (u ''severity'') PNone)
          \<and> truthy (py_get b (u ''severity'') PNone)
       then py_get b (u ''severity'') PNone else py_get o3 k d)"
    using adopt_spec [of "u ''severity''" o3 b] by (elim exE conjE) simp
  have m: "merge a b = Inr o4"
    by (simp add: merge_def Let_def bind assms py_get_setitem o3 o4)
  have "py_get o4 (u ''risks'') PNone = PList rs"
    by (simp add: g4 g3 py_get_setitem)
  moreover have "py_get o4 (u ''suggested_edits'') PNone = PList (es @ eb)"
    by (simp add: g4 g3 py_get_setitem)
  moreover have "py_get o4 (u ''label'') PNone =
      (if \<not> truthy (py_get a (u ''label'') PNone) \<and> truthy (py_get b (u ''label'') PNone)
       then py_get b (u ''label'') PNone else py_get a (u ''label'') PNone)"
    by (simp add: g4 g3 py_get_setitem)
  moreover have "py_get o4 (u ''severity'') PNone =
      (if \<not> truthy (py_get a (u ''severity'') PNone)
          \<and> truthy (py_get b (u ''severity'') PNone)
       then py_get b (u ''severity'') PNone else py_get a (u ''severity'') PNone)"
    by (simp add: g4 g3 py_get_setitem)
  moreover have "geom_view o4 = geom_view a"
    by (rule merge_geom_view [OF m])
  ultimately show ?thesis
    using m by blast
qed

section \<open>Well-typed hotspots raise nothing\<close>

lemma float_num_float: "float_num fl v \<Longrightarrow> \<exists>x. py_float fl v = Inr x"
  by (cases v) auto

lemma unit_float_num: "unit_sound fl \<Longrightarrow> 0 \<le> r \<Longrightarrow> r \<le> 1 \<Longrightarrow> float_num fl (PNum r)"
  by (simp add: unit_sound_def)

lemma typed_field_float:
  assumes "unit_sound fl" and "hotspot_typed fl h" and "k \<in> set GEOM_KEYS"
    and "0 \<le> d" and "d \<le> 1"
  shows "\<exists>x. py_float fl (py_get h k (PNum d)) = Inr x"
proof (cases "map_of h k")
  case None
  have "float_num fl (PNum d)" by (rule unit_float_num [OF assms(1,4,5)])
  from float_num_float [OF this] None show ?thesis
    by (simp add: py_get_def)
next
  case (Some v)
  with assms(2,3) have "float_num fl v" by (auto simp: hotspot_typed_def)
  with Some show ?thesis by (simp add: py_get_def float_num_float)
qed

lemma typed_shape_lower:
  assumes "hotspot_typed fl h"
  shows "\<exists>s. py_lower env (py_or (py_get h (u ''shape'') PNone) (PStr (u ''circle''))) = Inr s"
proof (cases "py_get h (u ''shape'') PNone")
  case PNone
  then show ?thesis by (simp add: py_or_def)
next
  case (PStr s)
  then show ?thesis by (simp add: py_or_def)
qed (use assms in \<open>simp_all add: hotspot_typed_def\<close>)

lemma typed_bbox:
  assumes us: "unit_sound fl" and ty: "hotspot_typed fl h"
  shows "\<exists>b. bbox fl env h = Inr b"
proof -
  obtain s where s: "py_lower env (py_or (py_get h (u ''shape'') PNone) (PStr (u ''circle'')))
      = Inr s"
    using typed_shape_lower [OF ty] by blast
  have keys: "u ''x'' \<in> set GEOM_KEYS" "u ''y'' \<in> set GEOM_KEYS" "u ''w'' \<in> set GEOM_KEYS"
    "u ''h'' \<in> set GEOM_KEYS" "u ''cx'' \<in> set GEOM_KEYS" "u ''cy'' \<in> set GEOM_KEYS"
    "u ''r'' \<in> set GEOM_KEYS"
    by (simp_all add: GEOM_KEYS_def)
  obtain x where x: "py_float fl (py_get h (u ''x'') (PNum 0)) = Inr x"
    using typed_field_float [OF us ty keys(1), of 0] by auto
  obtain y where y: "py_float fl (py_get h (u ''y'') (PNum 0)) = Inr y"
    using typed_field_float [OF us ty keys(2), of 0] by auto
  obtain w where w: "py_float fl (py_get h (u ''w'') (PNum 0)) = Inr w"
    using typed_field_float [OF us ty keys(3), of 0] by auto
  obtain hgt where hgt: "py_float fl (py_get h (u ''h'') (PNum 0)) = Inr hgt"
    using typed_field_float [OF us ty keys(4), of 0] by auto
  obtain cx where cx: "py_float fl (py_get h (u ''cx'') (PNum 0.5)) = Inr cx"
    using typed_field_float [OF us ty keys(5), of "0.5"] by auto
  obtain cy where cy: "py_float fl (py_get h (u ''cy'') (PNum 0.5)) = Inr cy"
    using typed_field_float [OF us ty keys(6), of "0.5"] by auto
  obtain r where r: "py_float fl (py_get h (u ''r'') (PNum 0.1)) = Inr r"
    using typed_field_float [OF us ty keys(7), of "0.1"] by auto
  show ?thesis
    unfolding bbox_def s x y w hgt cx cy r by (simp add: ebind_def)
qed

lemma str_list_iter:
  assumes "str_list v"
  shows "\<exists>xs. py_iter (py_or v (PList [])) = Inr xs \<and> list_all is_str xs"
  using assms by (cases v) (simp_all add: py_or_def)

lemma is_str_hashable: "is_str v \<Longrightarrow> hashable v"
  by (cases v) simp_all

lemma strs_py_set:
  assumes "list_all is_str xs"
  shows "\<exists>rs. py_set xs = Inr rs \<and> list_all is_str rs"
proof -
  have "list_all hashable xs"
    using assms by (simp add: list_all_iff is_str_hashable)
  then have ps: "py_set xs = Inr (foldl set_add [] xs)"
    by (simp add: py_set_def)
  from py_set_spec(3) [OF ps] assms have "list_all is_str (foldl set_add [] xs)"
    unfolding list_all_iff by blast
  with ps show ?thesis by blast
qed

lemma typed_of_view:
  assumes "geom_view m = geom_view a" and "hotspot_typed fl a"
    and "str_list (py_get m (u ''risks'') PNone)"
    and "str_list (py_get m (u ''suggested_edits'') PNone)"
  shows "hotspot_typed fl m"
proof -
  have eq: "map_of m k = map_of a k" if "k = u ''shape'' \<or> k \<in> set GEOM_KEYS" for k
    using assms(1) that by (metis geom_view_def)
  have "py_get m (u ''shape'') PNone = py_get a (u ''shape'') PNone"
    by (simp add: py_get_def eq)
  moreover have "\<forall>k\<in>set GEOM_KEYS. map_of m k = map_of a k"
    by (simp add: eq)
  ultimately show ?thesis
    using assms(2-4) by (simp add: hotspot_typed_def)
qed

lemma typed_merge:
  assumes "hotspot_typed fl a" and "hotspot_typed fl b"
  shows "\<exists>m. merge a b = Inr m \<and> hotspot_typed fl m"
proof -
  from assms have sl: "str_list (py_get a (u ''risks'') PNone)"
    "str_list (py_get b (u ''risks'') PNone)"
    "str_list (py_get a (u ''suggested_edits'') PNone)"
    "str_list (py_get b (u ''suggested_edits'') PNone)"
    by (simp_all add: hotspot_typed_def)
  from str_list_iter [OF sl(1)] obtain ra
    where ra: "py_iter (py_or (py_get a (u ''risks'') PNone) (PList [])) = Inr ra"
      and sra: "list_all is_str ra" by blast
  from str_list_iter [OF sl(2)] obtain rb
    where rb: "py_iter (py_or (py_get b (u ''risks'') PNone) (PList [])) = Inr rb"
      and srb: "list_all is_str rb" by blast
  from str_list_iter [OF sl(3)] obtain ea
    where ea: "py_iter (py_or (py_get a (u ''suggested_edits'') PNone) (PList [])) = Inr ea"
      and sea: "list_all is_str ea" by blast
  from str_list_iter [OF sl(4)] obtain eb
    where eb: "py_iter (py_or (py_get b (u ''suggested_edits'') PNone) (PList [])) = Inr eb"
      and seb: "list_all is_str eb" by blast
  from sra srb have "list_all is_str (ra @ rb)" by simp
  from strs_py_set [OF this] obtain rs
    where rs: "py_set (ra @ rb) = Inr rs" and srs: "list_all is_str rs" by blast
  from strs_py_set [OF sea] obtain es
    where es: "py_set ea = Inr es" and ses: "list_all is_str es" by blast
  from merge_spec [OF ra rb rs ea es eb] obtain m
    where m: "merge a b = Inr m"
      and gr: "py_get m (u ''risks'') PNone = PList rs"
      and ge: "py_get m (u ''suggested_edits'') PNone = PList (es @ eb)"
      and gv: "geom_view m = geom_view a"
    by blast
  have "hotspot_typed fl m"
    by (rule typed_of_view [OF gv assms(1)]) (simp_all add: gr ge srs ses seb)
  with m show ?thesis by blast
qed

lemma typed_clamp_key:
  assumes us: "unit_sound fl" and ty: "hotspot_typed fl h" and key: "key \<in> set GEOM_KEYS"
  shows "hotspot_typed fl (clamp_key fl key h)"
proof (cases "\<exists>v x. map_of h key = Some v \<and> py_float fl v = Inr x")
  case False
  then have "clamp_key fl key h = h"
    by (auto simp: clamp_key_def split: option.splits sum.splits)
  with ty show ?thesis by simp
next
  case True
  then obtain v x where "map_of h key = Some v" "py_float fl v = Inr x" by blast
  then have ck: "clamp_key fl key h
      = py_setitem h key (PNum (f_num fl (py_max fl (f_lit fl 0) (py_min fl (f_lit fl 1) x))))"
    by (simp add: clamp_key_def)
  have fn: "float_num fl (PNum (f_num fl (py_max fl (f_lit fl 0) (py_min fl (f_lit fl 1) x))))"
    using clamp_unit [OF us, of x] unit_float_num [OF us] by blast
  have ne: "key \<noteq> u ''shape''" "key \<noteq> u ''risks''" "key \<noteq> u ''suggested_edits''"
    using key by (auto simp: GEOM_KEYS_def)
  show ?thesis
    unfolding ck using ty ne fn
    by (simp add: hotspot_typed_def py_get_setitem map_of_setitem)
qed

lemma typed_fold_clamp:
  assumes us: "unit_sound fl"
  shows "hotspot_typed fl h \<Longrightarrow> set ks \<subseteq> set GEOM_KEYS
    \<Longrightarrow> hotspot_typed fl (fold (clamp_key fl) ks h)"
proof (induction ks arbitrary: h)
  case Nil
  then show ?case by simp
next
  case (Cons key ks)
  from Cons.prems have "hotspot_typed fl (clamp_key fl key h)"
    by (simp add: typed_clamp_key [OF us])
  from Cons.IH [OF this] Cons.prems(2) show ?case by simp
qed

lemma typed_clamp:
  "unit_sound fl \<Longrightarrow> hotspot_typed fl h \<Longrightarrow> hotspot_typed fl (clamp_geometry fl h)"
  by (simp add: clamp_geometry_def typed_fold_clamp)

lemma absorb_typed:
  assumes us: "unit_sound fl"
    and tall: "\<forall>k\<in>set ks. hotspot_typed fl k" and th: "hotspot_typed fl h"
  shows "\<exists>r. absorb fl env b h ks = Inr r
    \<and> (\<forall>ks'. r = Some ks' \<longrightarrow> (\<forall>k\<in>set ks'. hotspot_typed fl k))"
  using tall
proof (induction ks)
  case Nil
  show ?case by simp
next
  case (Cons k ks)
  from Cons.prems have tk: "hotspot_typed fl k" and tks: "\<forall>k\<in>set ks. hotspot_typed fl k"
    by simp_all
  from typed_bbox [OF us tk] obtain bk where bk: "bbox fl env k = Inr bk" by blast
  show ?case
  proof (cases "matches fl b bk")
    case True
    from typed_merge [OF tk th] obtain m
      where "merge k h = Inr m" "hotspot_typed fl m" by blast
    with True bk tks show ?thesis by (simp add: ebind_def)
  next
    case False
    from Cons.IH [OF tks] obtain r where r: "absorb fl env b h ks = Inr r"
      and rt: "\<forall>ks'. r = Some ks' \<longrightarrow> (\<forall>k\<in>set ks'. hotspot_typed fl k)" by blast
    have "absorb fl env b h (k # ks) = Inr (map_option ((#) k) r)"
      using False bk r by (simp add: ebind_def)
    moreover have "\<forall>ks'. map_option ((#) k) r = Some ks' \<longrightarrow> (\<forall>k\<in>set ks'. hotspot_typed fl k)"
      using rt tk by (cases r) auto
    ultimately show ?thesis by blast
  qed
qed

lemma dedupe_loop_typed:
  assumes us: "unit_sound fl"
    and "\<forall>k\<in>set kept. hotspot_typed fl k" and "\<forall>h\<in>set hs. hotspot_typed fl h"
  shows "\<exists>out. dedupe_loop fl env kept hs = Inr out"
  using assms(2,3)
proof (induction hs arbitrary: kept)
  case Nil
  show ?case by simp
next
  case (Cons h hs)
  from Cons.prems(2) have th: "hotspot_typed fl h" and ths: "\<forall>h\<in>set hs. hotspot_typed fl h"
    by simp_all
  from typed_bbox [OF us th] obtain b where b: "bbox fl env h = Inr b" by blast
  from absorb_typed [OF us Cons.prems(1) th] obtain r where r: "absorb fl env b h kept = Inr r"
    and rt: "\<forall>ks'. r = Some ks' \<longrightarrow> (\<forall>k\<in>set ks'. hotspot_typed fl k)" by blast
  show ?case
  proof (cases r)
    case None
    have "\<forall>k\<in>set (kept @ [clamp_geometry fl h]). hotspot_typed fl k"
      using Cons.prems(1) th by (simp add: typed_clamp [OF us])
    from Cons.IH [OF this ths] obtain out
      where "dedupe_loop fl env (kept @ [clamp_geometry fl h]) hs = Inr out" by blast
    with b r None show ?thesis by (simp add: ebind_def)
  next
    case (Some kept')
    with rt have "\<forall>k\<in>set kept'. hotspot_typed fl k" by simp
    from Cons.IH [OF this ths] obtain out
      where "dedupe_loop fl env kept' hs = Inr out" by blast
    with b r Some show ?thesis by (simp add: ebind_def)
  qed
qed

lemma area_keys_length: "area_keys fl env hs = Inr keys \<Longrightarrow> length keys = length hs"
proof (induction hs arbitrary: keys)
  case Nil
  then show ?case by simp
next
  case (Cons h hs)
  from Cons.prems obtain a as where "area_keys fl env hs = Inr as" and "keys = a # as"
    by (auto simp: ebind_def split: sum.splits)
  with Cons.IH show ?case by simp
qed

lemma area_keys_typed:
  assumes us: "unit_sound fl"
  shows "\<forall>h\<in>set hs. hotspot_typed fl h \<Longrightarrow> \<exists>keys. area_keys fl env hs = Inr keys"
proof (induction hs)
  case Nil
  show ?case by simp
next
  case (Cons h hs)
  then obtain keys where "area_keys fl env hs = Inr keys" by auto
  moreover from Cons.prems have "hotspot_typed fl h" by simp
  from typed_bbox [OF us this] obtain b where "bbox fl env h = Inr b" by blast
  ultimately show ?case by (simp add: ebind_def area_key_def)
qed

text \<open>The sorted list holds the elements of the list, each as often as the list does.\<close>

lemma mset_insert_desc: "mset (insert_desc fl p qs) = add_mset p (mset qs)"
  by (induction qs) simp_all

lemma mset_foldr_insert_desc: "mset (foldr (insert_desc fl) zs []) = mset zs"
  by (induction zs) (simp_all add: mset_insert_desc)

lemma sorted_desc_mset:
  assumes "length keys = length xs"
  shows "mset (sorted_desc fl keys xs) = mset xs"
proof -
  let ?zs = "zip keys xs"
  have "mset (sorted_desc fl keys xs) = image_mset snd (mset (foldr (insert_desc fl) ?zs []))"
    by (simp add: sorted_desc_def)
  also have "\<dots> = image_mset snd (mset ?zs)" by (simp only: mset_foldr_insert_desc)
  also have "\<dots> = mset (map snd ?zs)" by simp
  also have "\<dots> = mset xs" by (simp only: map_snd_zip [OF assms])
  finally show ?thesis .
qed

lemma set_sorted_desc:
  assumes "length keys = length xs"
  shows "set (sorted_desc fl keys xs) = set xs"
  using sorted_desc_mset [OF assms] by (rule mset_eq_setD)

lemma dedupe_typed:
  assumes us: "unit_sound fl" and ty: "\<forall>h\<in>set (dicts_of xs). hotspot_typed fl h"
  shows "\<exists>out. dedupe_hotspots fl env xs = Inr out"
proof -
  from area_keys_typed [OF us ty] obtain keys
    where keys: "area_keys fl env (dicts_of xs) = Inr keys" by blast
  have "set (sorted_desc fl keys (dicts_of xs)) = set (dicts_of xs)"
    by (rule set_sorted_desc) (rule area_keys_length [OF keys])
  with ty have "\<forall>h\<in>set (sorted_desc fl keys (dicts_of xs)). hotspot_typed fl h" by simp
  from dedupe_loop_typed [OF us _ this, of "[]"] obtain kept
    where "dedupe_loop fl env [] (sorted_desc fl keys (dicts_of xs)) = Inr kept" by auto
  with keys show ?thesis
    by (simp add: dedupe_hotspots_def ebind_def)
qed

text \<open>
  C4 (amended). Let the floats be such that \<^verbatim>\<open>0.0\<close> and \<^verbatim>\<open>1.0\<close> have the values 0 and 1, a
  float that \<^verbatim>\<open><\<close> finds between them has a value between 0 and 1, and \<^verbatim>\<open>float\<close> converts
  every number between 0 and 1. On every hotspot that \<open>dedupe_hotspots\<close> returns, merged
  or not, every geometry field (x, y, w, h, cx, cy, r) whose value \<^verbatim>\<open>float\<close> converts is a
  number between 0 and 1; a field whose value \<^verbatim>\<open>float\<close> does not convert is not spoken
  of. And for well-typed hotspots whose geometry fields \<^verbatim>\<open>float\<close> converts, whatever the
  coordinates (out of range, or giving a box of area zero), \<open>dedupe_hotspots\<close> returns and
  raises nothing. Both hold of the loop on every list that it is given to scan, so they
  do not depend on the order in which the sort leaves the hotspots.
\<close>

theorem dedupe_geometry_clamped:
  assumes "unit_sound fl"
  shows "(\<forall>out. dedupe_hotspots fl env xs = Inr out \<longrightarrow>
      (\<forall>h\<in>set out. \<forall>k\<in>set GEOM_KEYS. \<forall>v x.
          map_of h k = Some v \<longrightarrow> py_float fl v = Inr x \<longrightarrow>
            (\<exists>r. v = PNum r \<and> 0 \<le> r \<and> r \<le> 1)))
    \<and> ((\<forall>h\<in>set (dicts_of xs). hotspot_typed fl h)
        \<longrightarrow> (\<exists>out. dedupe_hotspots fl env xs = Inr out))
    \<and> (\<forall>ss kept. dedupe_loop fl env [] ss = Inr kept \<longrightarrow>
        (\<forall>h\<in>set kept. \<forall>k\<in>set GEOM_KEYS. \<forall>v x.
          map_of h k = Some v \<longrightarrow> py_float fl v = Inr x \<longrightarrow>
            (\<exists>r. v = PNum r \<and> 0 \<le> r \<and> r \<le> 1)))
    \<and> (\<forall>ss. (\<forall>h\<in>set ss. hotspot_typed fl h)
        \<longrightarrow> (\<exists>kept. dedupe_loop fl env [] ss = Inr kept))"
proof -
  have "\<forall>h\<in>set out. \<forall>k\<in>set GEOM_KEYS. \<forall>v x.
      map_of h k = Some v \<longrightarrow> py_float fl v = Inr x \<longrightarrow> (\<exists>r. v = PNum r \<and> 0 \<le> r \<and> r \<le> 1)"
    if "dedupe_hotspots fl env xs = Inr out" for out
    using dedupe_geom_ok [OF assms that] unfolding geom_ok_def field_ok_def by blast
  moreover have "\<forall>h\<in>set kept. \<forall>k\<in>set GEOM_KEYS. \<forall>v x.
      map_of h k = Some v \<longrightarrow> py_float fl v = Inr x \<longrightarrow> (\<exists>r. v = PNum r \<and> 0 \<le> r \<and> r \<le> 1)"
    if "dedupe_loop fl env [] ss = Inr kept" for ss kept
    using dedupe_loop_geom_ok [OF assms that] unfolding geom_ok_def field_ok_def by simp
  moreover have "\<exists>kept. dedupe_loop fl env [] ss = Inr kept"
    if "\<forall>h\<in>set ss. hotspot_typed fl h" for ss
    using dedupe_loop_typed [OF assms _ that, of "[]"] by simp
  ultimately show ?thesis
    using dedupe_typed [OF assms] by blast
qed
section \<open>Hotspots that do not match\<close>

text \<open>On the instance, clamping leaves a number between 0 and 1 as it is.\<close>

lemma clamp_key_id:
  assumes "in_unit h" and "key \<in> set GEOM_KEYS"
  shows "clamp_key exact_float key h = h"
proof (cases "map_of h key")
  case None
  then show ?thesis by (simp add: clamp_key_def)
next
  case (Some v)
  with assms obtain r where v: "v = PNum r" and r: "0 \<le> r" "r \<le> 1"
    by (cases v) (auto simp: in_unit_def)
  from r have "f_of_num exact_float r = Some r" by (simp add: exact_of_num)
  moreover from r have "max 0 (min 1 r) = r" by simp
  ultimately show ?thesis
    using Some v by (simp add: clamp_key_def setitem_same exact_float_simps exact_max exact_min)
qed

lemma fold_clamp_id:
  "in_unit h \<Longrightarrow> set ks \<subseteq> set GEOM_KEYS \<Longrightarrow> fold (clamp_key exact_float) ks h = h"
  by (induction ks) (simp_all add: clamp_key_id)

lemma clamp_geometry_id: "in_unit h \<Longrightarrow> clamp_geometry exact_float h = h"
  by (simp add: clamp_geometry_def fold_clamp_id)

lemma absorb_none:
  assumes "\<forall>k\<in>set kept. \<exists>bk. bbox fl env k = Inr bk \<and> \<not> matches fl b bk"
  shows "absorb fl env b h kept = Inr None"
  using assms by (induction kept) (auto simp: ebind_def)

text \<open>
  When no hotspot matches a different one and clamping changes none of them, the loop
  keeps every hotspot, in order.
\<close>

lemma dedupe_loop_apart:
  assumes "\<forall>h\<in>set rest. clamp_geometry fl h = h"
    and "distinct (kept @ rest)"
    and "\<forall>h\<in>set (kept @ rest). \<forall>k\<in>set (kept @ rest). h \<noteq> k \<longrightarrow>
          (\<exists>b bk. bbox fl env h = Inr b \<and> bbox fl env k = Inr bk \<and> \<not> matches fl b bk)"
    and "\<forall>h\<in>set rest. \<exists>b. bbox fl env h = Inr b"
  shows "dedupe_loop fl env kept rest = Inr (kept @ rest)"
  using assms
proof (induction rest arbitrary: kept)
  case Nil
  show ?case by simp
next
  case (Cons h rest)
  from Cons.prems(4) obtain b where b: "bbox fl env h = Inr b" by auto
  have "\<forall>k\<in>set kept. \<exists>bk. bbox fl env k = Inr bk \<and> \<not> matches fl b bk"
  proof
    fix k assume k: "k \<in> set kept"
    with Cons.prems(2) have "h \<noteq> k" by auto
    with Cons.prems(3) k obtain b' bk where "bbox fl env h = Inr b'" "bbox fl env k = Inr bk"
      "\<not> matches fl b' bk"
      by (metis Un_iff list.set_intros(1) set_append)
    with b show "\<exists>bk. bbox fl env k = Inr bk \<and> \<not> matches fl b bk" by simp
  qed
  then have ab: "absorb fl env b h kept = Inr None" by (rule absorb_none)
  have cl: "clamp_geometry fl h = h"
    using Cons.prems(1) by simp
  have step: "dedupe_loop fl env kept (h # rest) = dedupe_loop fl env (kept @ [h]) rest"
    by (simp add: b ab cl ebind_def)
  have "dedupe_loop fl env (kept @ [h]) rest = Inr ((kept @ [h]) @ rest)"
    using Cons.prems by (intro Cons.IH) simp_all
  with step show ?case by simp
qed

lemma area_keys_boxes:
  "map (bbox fl env) hs = map Inr bs \<Longrightarrow> area_keys fl env hs = Inr (map (area fl) bs)"
proof (induction hs arbitrary: bs)
  case Nil
  then show ?case by simp
next
  case (Cons h hs)
  then obtain b bs' where "bs = b # bs'" "bbox fl env h = Inr b" "map (bbox fl env) hs = map Inr bs'"
    by (cases bs) auto
  with Cons.IH show ?case by (simp add: ebind_def area_key_def)
qed

lemma apart_nth:
  "apart fl bs \<Longrightarrow> i < length bs \<Longrightarrow> j < length bs \<Longrightarrow> i \<noteq> j \<Longrightarrow> \<not> matches fl (bs ! i) (bs ! j)"
proof (induction bs arbitrary: i j)
  case Nil
  then show ?case by simp
next
  case (Cons b bs)
  show ?case
  proof (cases i)
    case 0
    with Cons.prems obtain j' where j: "j = Suc j'" "j' < length bs" by (cases j) auto
    with Cons.prems(1) 0 show ?thesis by (auto simp: list_all_length)
  next
    case (Suc i')
    show ?thesis
    proof (cases j)
      case 0
      with Cons.prems Suc show ?thesis by (auto simp: list_all_length)
    next
      case (Suc j')
      with Cons.prems \<open>i = Suc i'\<close> Cons.IH [of i' j'] show ?thesis by simp
    qed
  qed
qed

text \<open>The length of every result is at most 12.\<close>

lemma dedupe_length_le:
  "dedupe_hotspots fl env xs = Inr out \<Longrightarrow> length out \<le> 12"
  by (auto simp: dedupe_hotspots_def ebind_def Let_def split: sum.splits)

lemma dicts_of_map_PDict: "dicts_of (map PDict hs) = hs"
  by (induction hs) simp_all

lemma boxes_nth:
  assumes "map (bbox fl env) hs = map Inr bs" and "i < length hs"
  shows "bbox fl env (hs ! i) = Inr (bs ! i)"
proof -
  have len: "length bs = length hs" using assms(1) by (metis length_map)
  have "bbox fl env (hs ! i) = map (bbox fl env) hs ! i" using assms(2) by simp
  also have "\<dots> = map Inr bs ! i" by (simp only: assms(1))
  also have "\<dots> = Inr (bs ! i)" using assms(2) len by simp
  finally show ?thesis .
qed

lemma boxes_have:
  assumes "map (bbox fl env) hs = map Inr bs" and "h \<in> set hs"
  shows "\<exists>b. bbox fl env h = Inr b"
proof -
  from assms(2) obtain i where "i < length hs" "hs ! i = h" by (auto simp: in_set_conv_nth)
  with boxes_nth [OF assms(1), of i] show ?thesis by blast
qed

lemma boxes_distinct:
  assumes "map (bbox fl env) hs = map Inr bs" and "distinct (map (area fl) bs)"
  shows "distinct hs"
proof -
  from assms(2) have "distinct bs" by (simp add: distinct_map)
  then have "distinct (map Inr bs :: (error + 'a box) list)"
    by (simp add: distinct_map)
  then have "distinct (map (bbox fl env) hs)" by (simp only: assms(1))
  then show ?thesis by (simp add: distinct_map)
qed

lemma boxes_apart:
  assumes boxes: "map (bbox fl env) hs = map Inr bs" and ap: "apart fl bs"
    and dist: "distinct hs" and h: "h \<in> set hs" and k: "k \<in> set hs" and ne: "h \<noteq> k"
  shows "\<exists>b bk. bbox fl env h = Inr b \<and> bbox fl env k = Inr bk \<and> \<not> matches fl b bk"
proof -
  have len: "length bs = length hs" using boxes by (metis length_map)
  from h obtain i where i: "i < length hs" "hs ! i = h" by (auto simp: in_set_conv_nth)
  from k obtain j where j: "j < length hs" "hs ! j = k" by (auto simp: in_set_conv_nth)
  from ne i j have "i \<noteq> j" by auto
  with apart_nth [OF ap, of i j] i j len have "\<not> matches fl (bs ! i) (bs ! j)" by simp
  moreover have "bbox fl env h = Inr (bs ! i)" using boxes_nth [OF boxes i(1)] i(2) by simp
  moreover have "bbox fl env k = Inr (bs ! j)" using boxes_nth [OF boxes j(1)] j(2) by simp
  ultimately show ?thesis by blast
qed

text \<open>
  When \<^verbatim>\<open><\<close> orders the keys and no two are equal, the sorted list is strictly descending.
\<close>

lemma set_insert_desc: "set (insert_desc fl p qs) = insert p (set qs)"
  by (induction qs) auto

lemma insert_desc_sorted:
  assumes ord: "ordered_keys fl ks"
    and p: "fst p \<in> set ks"
    and qs: "fst ` set qs \<subseteq> set ks"
    and new: "fst p \<notin> fst ` set qs"
    and sorted: "sorted_wrt (\<lambda>p q. f_lt fl (fst q) (fst p)) qs"
  shows "sorted_wrt (\<lambda>p q. f_lt fl (fst q) (fst p)) (insert_desc fl p qs)"
  using qs new sorted
proof (induction qs)
  case Nil
  show ?case by simp
next
  case (Cons q qs)
  from ord have tr: "\<And>a b c. a \<in> set ks \<Longrightarrow> b \<in> set ks \<Longrightarrow> c \<in> set ks
      \<Longrightarrow> f_lt fl a b \<Longrightarrow> f_lt fl b c \<Longrightarrow> f_lt fl a c"
    and cmp: "\<And>a b. a \<in> set ks \<Longrightarrow> b \<in> set ks \<Longrightarrow> a \<noteq> b \<Longrightarrow> f_lt fl a b \<or> f_lt fl b a"
    unfolding ordered_keys_def by blast+
  from Cons.prems have q: "fst q \<in> set ks" and qsk: "fst ` set qs \<subseteq> set ks"
    and ne: "fst p \<noteq> fst q" and new': "fst p \<notin> fst ` set qs"
    and below: "\<forall>x\<in>set qs. f_lt fl (fst x) (fst q)"
    and sorted': "sorted_wrt (\<lambda>p q. f_lt fl (fst q) (fst p)) qs"
    by auto
  show ?case
  proof (cases "f_lt fl (fst p) (fst q)")
    case True
    have "sorted_wrt (\<lambda>p q. f_lt fl (fst q) (fst p)) (insert_desc fl p qs)"
      by (rule Cons.IH [OF qsk new' sorted'])
    moreover have "\<forall>x\<in>set (insert_desc fl p qs). f_lt fl (fst x) (fst q)"
      using True below by (simp add: set_insert_desc)
    ultimately show ?thesis using True by simp
  next
    case False
    with cmp [OF p q ne] have qp: "f_lt fl (fst q) (fst p)" by simp
    have "f_lt fl (fst x) (fst p)" if "x \<in> set qs" for x
    proof -
      from that below have "f_lt fl (fst x) (fst q)" by simp
      moreover from that qsk have "fst x \<in> set ks" by auto
      ultimately show ?thesis using tr [OF _ q p] qp by blast
    qed
    with qp False Cons.prems(3) show ?thesis by simp
  qed
qed

lemma ranked_descending:
  assumes ord: "ordered_keys fl ks" and keys: "fst ` set zs \<subseteq> set ks"
    and dist: "distinct (map fst zs)"
  shows "sorted_wrt (\<lambda>p q. f_lt fl (fst q) (fst p)) (foldr (insert_desc fl) zs [])"
  using keys dist
proof (induction zs)
  case Nil
  show ?case by simp
next
  case (Cons z zs)
  let ?r = "foldr (insert_desc fl) zs []"
  have set_r: "set ?r = set zs"
    using mset_foldr_insert_desc [of fl zs] by (rule mset_eq_setD)
  from Cons.prems have "sorted_wrt (\<lambda>p q. f_lt fl (fst q) (fst p)) ?r"
    by (intro Cons.IH) auto
  moreover from Cons.prems have "fst z \<in> set ks" "fst ` set ?r \<subseteq> set ks"
    "fst z \<notin> fst ` set ?r"
    by (auto simp: set_r)
  ultimately have "sorted_wrt (\<lambda>p q. f_lt fl (fst q) (fst p)) (insert_desc fl z ?r)"
    using insert_desc_sorted [OF ord] by blast
  then show ?case by simp
qed

text \<open>On the instance the keys of a list are ordered when no two are equal.\<close>

lemma exact_ordered_keys: "ordered_keys exact_float ks \<longleftrightarrow> distinct ks"
  by (auto simp: ordered_keys_def exact_float_simps)

text \<open>
  C3 (amended). Every result has at most 12 entries. For hotspots that clamping leaves
  as they are (their geometry fields are floats between 0 and 1), whose boxes have
  pairwise different areas that \<^verbatim>\<open><\<close> orders and of which no two match, the result is the
  first 12 of the hotspots listed by strictly decreasing area, unchanged; for 14 such
  hotspots these are exactly 12. Areas, matches and clamping are the ones the program
  computes in floats.
\<close>

theorem dedupe_keeps_largest:
  assumes boxes: "map (bbox fl env) hs = map Inr bs"
    and unit: "\<forall>h\<in>set hs. clamp_geometry fl h = h"
    and areas: "ordered_keys fl (map (area fl) bs)"
    and ap: "apart fl bs"
  shows "(\<exists>ranked. mset ranked = mset (zip (map (area fl) bs) hs)
        \<and> sorted_wrt (\<lambda>p q. f_lt fl (fst q) (fst p)) ranked
        \<and> dedupe_hotspots fl env (map PDict hs) = Inr (map snd (take 12 ranked))
        \<and> (length hs = 14 \<longrightarrow> length (map snd (take 12 ranked)) = 12))
    \<and> (\<forall>xs out. dedupe_hotspots fl env xs = Inr out \<longrightarrow> length out \<le> 12)"
proof -
  let ?keys = "map (area fl) bs"
  let ?zs = "zip ?keys hs"
  let ?ranked = "foldr (insert_desc fl) ?zs []"
  let ?ss = "sorted_desc fl ?keys hs"
  have len: "length ?keys = length hs" using boxes by (metis length_map)
  have keys: "area_keys fl env hs = Inr ?keys" by (rule area_keys_boxes [OF boxes])
  have ss: "?ss = map snd ?ranked" by (simp add: sorted_desc_def)
  have ms: "mset ?ss = mset hs" by (rule sorted_desc_mset [OF len])
  then have set_ss: "set ?ss = set hs" by (rule mset_eq_setD)
  from areas have dk: "distinct ?keys" by (simp add: ordered_keys_def)
  have dist: "distinct hs" by (rule boxes_distinct [OF boxes dk])
  with ms have dist_ss: "distinct ?ss" by (metis mset_eq_imp_distinct_iff)
  have loop: "dedupe_loop fl env [] ?ss = Inr ([] @ ?ss)"
  proof (rule dedupe_loop_apart)
    show "\<forall>h\<in>set ?ss. clamp_geometry fl h = h" using unit set_ss by simp
    show "distinct ([] @ ?ss)" using dist_ss by simp
    show "\<forall>h\<in>set ([] @ ?ss). \<forall>k\<in>set ([] @ ?ss). h \<noteq> k \<longrightarrow>
        (\<exists>b bk. bbox fl env h = Inr b \<and> bbox fl env k = Inr bk \<and> \<not> matches fl b bk)"
      using boxes_apart [OF boxes ap dist] set_ss by simp
    show "\<forall>h\<in>set ?ss. \<exists>b. bbox fl env h = Inr b"
      using boxes_have [OF boxes] set_ss by simp
  qed
  have res: "dedupe_hotspots fl env (map PDict hs) = Inr (map snd (take 12 ?ranked))"
    using loop keys by (simp add: dedupe_hotspots_def dicts_of_map_PDict ebind_def ss take_map)
  have m: "mset ?ranked = mset ?zs" by (rule mset_foldr_insert_desc)
  have fz: "map fst ?zs = ?keys" using len by (simp only: map_fst_zip)
  then have "fst ` set ?zs \<subseteq> set ?keys" by (metis order_refl set_map)
  moreover from dk fz have "distinct (map fst ?zs)" by (simp only:)
  ultimately have desc: "sorted_wrt (\<lambda>p q. f_lt fl (fst q) (fst p)) ?ranked"
    by (rule ranked_descending [OF areas])
  have "length ?ranked = length hs"
    using len m by (metis length_zip min.idem size_mset)
  then have l14: "length hs = 14 \<longrightarrow> length (map snd (take 12 ?ranked)) = 12" by simp
  from m desc res l14 dedupe_length_le show ?thesis by blast
qed
section \<open>Example hotspots\<close>

text \<open>
  Except in the merge scenario, whose numbers are the specification's, the numbers of the
  examples are fractions with a power of two as denominator: Python holds them as floats
  without rounding, and the sums, differences and products that the program forms of
  them are exact.
\<close>

definition circle_at :: "real \<Rightarrow> real \<Rightarrow> real \<Rightarrow> pydict" where
  "circle_at cx cy r =
     [(u ''shape'', PStr (u ''circle'')), (u ''cx'', PNum cx), (u ''cy'', PNum cy),
      (u ''r'', PNum r)]"

definition rect_at :: "real \<Rightarrow> real \<Rightarrow> real \<Rightarrow> real \<Rightarrow> pydict" where
  "rect_at x y w h =
     [(u ''shape'', PStr (u ''rect'')), (u ''x'', PNum x), (u ''y'', PNum y),
      (u ''w'', PNum w), (u ''h'', PNum h)]"

text \<open>
  Fourteen circles inside the unit square, their centres a quarter apart, of different
  radii.
\<close>

definition GRID14 :: "pydict list" where
  "GRID14 =
    [circle_at (1 / 8) (1 / 8) (37 / 1024),
     circle_at (3 / 8) (1 / 8) (19 / 512),
     circle_at (5 / 8) (1 / 8) (39 / 1024),
     circle_at (7 / 8) (1 / 8) (5 / 128),
     circle_at (1 / 8) (3 / 8) (41 / 1024),
     circle_at (3 / 8) (3 / 8) (21 / 512),
     circle_at (5 / 8) (3 / 8) (43 / 1024),
     circle_at (7 / 8) (3 / 8) (11 / 256),
     circle_at (1 / 8) (5 / 8) (45 / 1024),
     circle_at (3 / 8) (5 / 8) (23 / 512),
     circle_at (5 / 8) (5 / 8) (47 / 1024),
     circle_at (7 / 8) (5 / 8) (3 / 64),
     circle_at (1 / 8) (7 / 8) (49 / 1024),
     circle_at (3 / 8) (7 / 8) (25 / 512)]"

definition GRID14_BOXES :: "real box list" where
  "GRID14_BOXES =
    [(91 / 1024, 91 / 1024, 165 / 1024, 165 / 1024),
     (173 / 512, 45 / 512, 211 / 512, 83 / 512),
     (601 / 1024, 89 / 1024, 679 / 1024, 167 / 1024),
     (107 / 128, 11 / 128, 117 / 128, 21 / 128),
     (87 / 1024, 343 / 1024, 169 / 1024, 425 / 1024),
     (171 / 512, 171 / 512, 213 / 512, 213 / 512),
     (597 / 1024, 341 / 1024, 683 / 1024, 427 / 1024),
     (213 / 256, 85 / 256, 235 / 256, 107 / 256),
     (83 / 1024, 595 / 1024, 173 / 1024, 685 / 1024),
     (169 / 512, 297 / 512, 215 / 512, 343 / 512),
     (593 / 1024, 593 / 1024, 687 / 1024, 687 / 1024),
     (53 / 64, 37 / 64, 59 / 64, 43 / 64),
     (79 / 1024, 847 / 1024, 177 / 1024, 945 / 1024),
     (167 / 512, 423 / 512, 217 / 512, 473 / 512)]"

text \<open>
  Fourteen hotspots in order of decreasing area, no two of which overlap: a rectangle
  that starts left of the image and ends at a quarter of its width, a circle around the
  point (1/2, 1/4), and twelve small circles in the lower half of the image.
\<close>

definition WIDE_REST :: "pydict list" where
  "WIDE_REST =
    [circle_at (1 / 8) (5 / 8) (47 / 1024),
     circle_at (3 / 8) (5 / 8) (23 / 512),
     circle_at (5 / 8) (5 / 8) (45 / 1024),
     circle_at (7 / 8) (5 / 8) (11 / 256),
     circle_at (1 / 8) (3 / 4) (43 / 1024),
     circle_at (3 / 8) (3 / 4) (21 / 512),
     circle_at (5 / 8) (3 / 4) (41 / 1024),
     circle_at (7 / 8) (3 / 4) (5 / 128),
     circle_at (1 / 8) (7 / 8) (39 / 1024),
     circle_at (3 / 8) (7 / 8) (19 / 512),
     circle_at (5 / 8) (7 / 8) (37 / 1024),
     circle_at (7 / 8) (7 / 8) (9 / 256)]"

definition WIDE_REST_BOXES :: "real box list" where
  "WIDE_REST_BOXES =
    [(81 / 1024, 593 / 1024, 175 / 1024, 687 / 1024),
     (169 / 512, 297 / 512, 215 / 512, 343 / 512),
     (595 / 1024, 595 / 1024, 685 / 1024, 685 / 1024),
     (213 / 256, 149 / 256, 235 / 256, 171 / 256),
     (85 / 1024, 725 / 1024, 171 / 1024, 811 / 1024),
     (171 / 512, 363 / 512, 213 / 512, 405 / 512),
     (599 / 1024, 727 / 1024, 681 / 1024, 809 / 1024),
     (107 / 128, 91 / 128, 117 / 128, 101 / 128),
     (89 / 1024, 857 / 1024, 167 / 1024, 935 / 1024),
     (173 / 512, 429 / 512, 211 / 512, 467 / 512),
     (603 / 1024, 859 / 1024, 677 / 1024, 933 / 1024),
     (215 / 256, 215 / 256, 233 / 256, 233 / 256)]"

definition WIDE14 :: "pydict list" where
  "WIDE14 = rect_at (- 1) 0 (5 / 4) (1 / 2) # circle_at (1 / 2) (1 / 4) (1 / 16) # WIDE_REST"

definition WIDE14_BOXES :: "real box list" where
  "WIDE14_BOXES =
     (- 1, 0, 1 / 4, 1 / 2) # (7 / 16, 3 / 16, 9 / 16, 5 / 16) # WIDE_REST_BOXES"

text \<open>
  The first entry of the result for \<open>WIDE14\<close>: the rectangle, clamped, with the two keys
  that the merge of the first circle added.
\<close>

definition WIDE_MERGED :: pydict where
  "WIDE_MERGED =
    [(u ''shape'', PStr (u ''rect'')), (u ''x'', PNum 0), (u ''y'', PNum 0),
     (u ''w'', PNum 1), (u ''h'', PNum (1 / 2)), (u ''risks'', PList []),
     (u ''suggested_edits'', PList [])]"

text \<open>
  A list with an entry that is no dictionary, a rectangle of width zero that lies outside
  the image, and a circle that is far larger than the image.
\<close>

definition OUTSIDE3 :: "pyval list" where
  "OUTSIDE3 =
    [PStr (u ''note''), PDict (rect_at (- 1 / 2) (7 / 4) 0 3), PDict (circle_at 2 (- 1) 5)]"

text \<open>
  An integer that is too large for a float, and a circle inside the image that carries a
  key \<^verbatim>\<open>x\<close>, which the box of a circle does not read, with this integer as its value.
\<close>

definition HUGE_INT :: real where
  "HUGE_INT = 10 ^ 400"

definition STRAY :: pydict where
  "STRAY =
    [(u ''shape'', PStr (u ''circle'')), (u ''cx'', PNum (1 / 2)), (u ''cy'', PNum (1 / 2)),
     (u ''r'', PNum (1 / 4)), (u ''x'', PNum HUGE_INT)]"

text \<open>
  The two circles of the specification's merge scenario, each with the suggested edit
  "blur", and the one entry that \<open>dedupe_hotspots\<close> returns for them. Their centres are
  about 0.054 apart and their areas are 0.04 and 0.0324, far from where rounding could
  decide a comparison.
\<close>

definition SCENE_A :: pydict where
  "SCENE_A =
    [(u ''shape'', PStr (u ''circle'')), (u ''cx'', PNum (1 / 2)), (u ''cy'', PNum (1 / 2)),
     (u ''r'', PNum (1 / 10)), (u ''label'', PStr (u ''logo'')),
     (u ''risks'', PList [PStr (u ''flag'')]),
     (u ''suggested_edits'', PList [PStr (u ''blur'')])]"

definition SCENE_B :: pydict where
  "SCENE_B =
    [(u ''shape'', PStr (u ''circle'')), (u ''cx'', PNum (11 / 20)), (u ''cy'', PNum (13 / 25)),
     (u ''r'', PNum (9 / 100)), (u ''severity'', PStr (u ''Risk'')),
     (u ''risks'', PList [PStr (u ''flag''), PStr (u ''slogan'')]),
     (u ''suggested_edits'', PList [PStr (u ''blur'')])]"

definition SCENE_MERGED :: pydict where
  "SCENE_MERGED =
    [(u ''shape'', PStr (u ''circle'')), (u ''cx'', PNum (1 / 2)), (u ''cy'', PNum (1 / 2)),
     (u ''r'', PNum (1 / 10)), (u ''label'', PStr (u ''logo'')),
     (u ''risks'', PList [PStr (u ''flag''), PStr (u ''slogan'')]),
     (u ''suggested_edits'', PList [PStr (u ''blur''), PStr (u ''blur'')]),
     (u ''severity'', PStr (u ''Risk''))]"

section \<open>The examples evaluated\<close>

lemma bbox_circle_at:
  "\<bar>cx\<bar> \<le> 1000 \<Longrightarrow> \<bar>cy\<bar> \<le> 1000 \<Longrightarrow> \<bar>r\<bar> \<le> 1000
    \<Longrightarrow> bbox exact_float ascii_env (circle_at cx cy r) = Inr (cx - r, cy - r, cx + r, cy + r)"
  by (simp add: circle_at_def bbox_def py_get_def py_or_def ebind_def ascii_env_def u_def
      ascii_lower_def exact_float_simps exact_of_num)

lemma bbox_rect_at:
  "\<bar>x\<bar> \<le> 1000 \<Longrightarrow> \<bar>y\<bar> \<le> 1000 \<Longrightarrow> \<bar>w\<bar> \<le> 1000 \<Longrightarrow> \<bar>h\<bar> \<le> 1000
    \<Longrightarrow> bbox exact_float ascii_env (rect_at x y w h) = Inr (x, y, x + w, y + h)"
  by (simp add: rect_at_def bbox_def py_get_def py_or_def ebind_def ascii_env_def u_def
      ascii_lower_def exact_float_simps exact_of_num)

lemma wide_rest_boxes: "map (bbox exact_float ascii_env) WIDE_REST = map Inr WIDE_REST_BOXES"
  by (simp add: WIDE_REST_def WIDE_REST_BOXES_def bbox_circle_at)

lemma wide_boxes: "map (bbox exact_float ascii_env) WIDE14 = map Inr WIDE14_BOXES"
  by (simp add: WIDE14_def WIDE14_BOXES_def wide_rest_boxes bbox_circle_at bbox_rect_at)

lemma wide_merged_box: "bbox exact_float ascii_env WIDE_MERGED = Inr (0, 0, 1, 1 / 2)"
  by (simp add: WIDE_MERGED_def bbox_def py_get_def py_or_def ebind_def ascii_env_def u_def
      ascii_lower_def exact_float_simps exact_of_num)

lemma wide_clamp:
  "clamp_geometry exact_float (rect_at (- 1) 0 (5 / 4) (1 / 2)) = rect_at 0 0 1 (1 / 2)"
  by (simp add: rect_at_def clamp_geometry_def clamp_key_def GEOM_KEYS_def u_def
      exact_float_simps exact_of_num exact_max exact_min)

lemma wide_merge:
  "merge (rect_at 0 0 1 (1 / 2)) (circle_at (1 / 2) (1 / 4) (1 / 16)) = Inr WIDE_MERGED"
  by (simp add: rect_at_def circle_at_def WIDE_MERGED_def merge_def adopt_def py_get_def py_or_def
      ebind_def py_set_def u_def Let_def)

lemma wide_match: "matches exact_float (7 / 16, 3 / 16, 9 / 16, 5 / 16) (0, 0, 1, 1 / 2)"
  by (simp add: exact_simps)

lemma wide_areas: "sorted_wrt (>) (map (area exact_float) WIDE14_BOXES)"
  by (simp add: WIDE14_BOXES_def WIDE_REST_BOXES_def exact_simps)

lemma wide_distinct: "distinct (map (area exact_float) WIDE14_BOXES)"
  by (simp add: WIDE14_BOXES_def WIDE_REST_BOXES_def exact_simps)

lemma wide_apart: "apart exact_float WIDE14_BOXES"
  by (simp add: WIDE14_BOXES_def WIDE_REST_BOXES_def exact_simps)

lemma wide_disjoint_far: "disjoint_far exact_float WIDE14_BOXES"
  by (simp add: WIDE14_BOXES_def WIDE_REST_BOXES_def exact_simps)

lemma apart_tl: "apart fl (b # bs) \<Longrightarrow> apart fl bs"
  by simp

lemma wide_kept_apart: "apart exact_float ((0, 0, 1, 1 / 2) # WIDE_REST_BOXES)"
proof -
  have "apart exact_float WIDE_REST_BOXES"
    using wide_apart unfolding WIDE14_BOXES_def by (blast dest: apart_tl)
  moreover have "list_all (\<lambda>c. \<not> matches exact_float (0, 0, 1, 1 / 2) c
      \<and> \<not> matches exact_float c (0, 0, 1, 1 / 2)) WIDE_REST_BOXES"
    by (simp add: WIDE_REST_BOXES_def exact_simps)
  ultimately show ?thesis by simp
qed

lemma wide_rest_unit: "list_all in_unit WIDE_REST"
  by (simp add: WIDE_REST_def circle_at_def in_unit_def GEOM_KEYS_def u_def)

lemma wide_kept_areas: "distinct (map (area exact_float) ((0, 0, 1, 1 / 2) # WIDE_REST_BOXES))"
  by (simp add: WIDE_REST_BOXES_def exact_simps)

lemma wide_loop_rest:
  "dedupe_loop exact_float ascii_env [WIDE_MERGED] WIDE_REST = Inr (WIDE_MERGED # WIDE_REST)"
proof -
  let ?hs = "WIDE_MERGED # WIDE_REST"
  let ?bs = "(0, 0, 1, 1 / 2) # WIDE_REST_BOXES"
  have boxes: "map (bbox exact_float ascii_env) ?hs = map Inr ?bs"
    by (simp add: wide_merged_box wide_rest_boxes)
  have dist: "distinct ?hs"
    by (rule boxes_distinct [OF boxes wide_kept_areas])
  have "dedupe_loop exact_float ascii_env [WIDE_MERGED] WIDE_REST
      = Inr ([WIDE_MERGED] @ WIDE_REST)"
  proof (rule dedupe_loop_apart)
    show "\<forall>h\<in>set WIDE_REST. clamp_geometry exact_float h = h"
      using wide_rest_unit by (simp add: list_all_iff clamp_geometry_id)
    show "distinct ([WIDE_MERGED] @ WIDE_REST)" using dist by simp
    show "\<forall>h\<in>set ([WIDE_MERGED] @ WIDE_REST). \<forall>k\<in>set ([WIDE_MERGED] @ WIDE_REST). h \<noteq> k \<longrightarrow>
        (\<exists>b bk. bbox exact_float ascii_env h = Inr b \<and> bbox exact_float ascii_env k = Inr bk
          \<and> \<not> matches exact_float b bk)"
      using boxes_apart [OF boxes wide_kept_apart dist] by simp
    show "\<forall>h\<in>set WIDE_REST. \<exists>b. bbox exact_float ascii_env h = Inr b"
      using boxes_have [OF wide_rest_boxes] by blast
  qed
  then show ?thesis by simp
qed

lemma wide_loop:
  "dedupe_loop exact_float ascii_env [] WIDE14 = Inr (WIDE_MERGED # WIDE_REST)"
proof -
  have "dedupe_loop exact_float ascii_env [] WIDE14
      = dedupe_loop exact_float ascii_env [rect_at 0 0 1 (1 / 2)]
          (circle_at (1 / 2) (1 / 4) (1 / 16) # WIDE_REST)"
    by (simp add: WIDE14_def bbox_rect_at ebind_def wide_clamp)
  also have "\<dots> = dedupe_loop exact_float ascii_env [WIDE_MERGED] WIDE_REST"
    using wide_match by (simp add: bbox_circle_at bbox_rect_at ebind_def wide_merge)
  finally show ?thesis by (simp only: wide_loop_rest)
qed

lemma wide_sorted:
  "sorted_desc exact_float (map (area exact_float) WIDE14_BOXES) WIDE14 = WIDE14"
proof -
  have len: "length (map (area exact_float) WIDE14_BOXES) = length WIDE14"
    using wide_boxes by (metis length_map)
  have "sorted (map (\<lambda>(a :: real, x :: pydict). - a)
      (zip (map (area exact_float) WIDE14_BOXES) WIDE14))"
    by (simp add: WIDE14_BOXES_def WIDE_REST_BOXES_def WIDE14_def WIDE_REST_def exact_simps)
  then have "sort_key (\<lambda>(a :: real, x :: pydict). - a)
      (zip (map (area exact_float) WIDE14_BOXES) WIDE14)
      = zip (map (area exact_float) WIDE14_BOXES) WIDE14"
    by (rule sort_key_id_if_sorted)
  then show ?thesis
    by (simp add: exact_sorted_desc map_snd_zip [OF len])
qed

lemma wide_result:
  "dedupe_hotspots exact_float ascii_env (map PDict WIDE14)
    = Inr (WIDE_MERGED # take 11 WIDE_REST)"
proof -
  have "area_keys exact_float ascii_env WIDE14 = Inr (map (area exact_float) WIDE14_BOXES)"
    by (rule area_keys_boxes [OF wide_boxes])
  then have "dedupe_hotspots exact_float ascii_env (map PDict WIDE14)
      = Inr (take 12 (WIDE_MERGED # WIDE_REST))"
    by (simp add: dedupe_hotspots_def dicts_of_map_PDict ebind_def wide_sorted wide_loop)
  then show ?thesis by simp
qed

text \<open>
  C3, as stated, fails. \<open>WIDE14\<close> lists fourteen hotspots by strictly decreasing area; no
  two of their boxes overlap (every intersection over union is 0), the centres of any two
  are more than 0.12 apart, and so no two match. The first hotspot, a rectangle that
  starts left of the image, is kept and clamped, which moves its centre onto the second
  hotspot; that one is then merged into it. The result lacks the second largest hotspot
  and holds the thirteenth largest.
\<close>

theorem dedupe_largest_counterexample:
  "map (bbox exact_float ascii_env) WIDE14 = map Inr WIDE14_BOXES
    \<and> length WIDE14 = 14
    \<and> sorted_wrt (>) (map (area exact_float) WIDE14_BOXES)
    \<and> distinct (map (area exact_float) WIDE14_BOXES)
    \<and> disjoint_far exact_float WIDE14_BOXES
    \<and> apart exact_float WIDE14_BOXES
    \<and> dedupe_hotspots exact_float ascii_env (map PDict WIDE14)
        = Inr (WIDE_MERGED # take 11 WIDE_REST)
    \<and> WIDE14 ! 1 \<notin> set (WIDE_MERGED # take 11 WIDE_REST)
    \<and> WIDE14 ! 12 \<in> set (WIDE_MERGED # take 11 WIDE_REST)
    \<and> WIDE_MERGED # take 11 WIDE_REST \<noteq> take 12 WIDE14"
proof -
  have len: "length WIDE14 = 14"
    by (simp add: WIDE14_def WIDE_REST_def)
  have second: "WIDE14 ! 1 \<notin> set (WIDE_MERGED # take 11 WIDE_REST)"
    by (simp add: WIDE14_def WIDE_REST_def WIDE_MERGED_def circle_at_def u_def)
  have thirteenth: "WIDE14 ! 12 \<in> set (WIDE_MERGED # take 11 WIDE_REST)"
    by (simp add: WIDE14_def WIDE_REST_def)
  have diff: "WIDE_MERGED # take 11 WIDE_REST \<noteq> take 12 WIDE14"
    by (simp add: WIDE14_def WIDE_MERGED_def rect_at_def u_def)
  from wide_boxes len wide_areas wide_distinct wide_disjoint_far wide_apart wide_result
    second thirteenth diff
  show ?thesis by blast
qed

lemma grid_boxes: "map (bbox exact_float ascii_env) GRID14 = map Inr GRID14_BOXES"
  by (simp add: GRID14_def GRID14_BOXES_def bbox_circle_at)

lemma grid_unit: "list_all in_unit GRID14"
  by (simp add: GRID14_def circle_at_def in_unit_def GEOM_KEYS_def u_def)

lemma grid_areas: "distinct (map (area exact_float) GRID14_BOXES)"
  by (simp add: GRID14_BOXES_def exact_simps)

lemma grid_apart: "apart exact_float GRID14_BOXES"
  by (simp add: GRID14_BOXES_def exact_simps)

theorem dedupe_keeps_largest_witness:
  "map (bbox exact_float ascii_env) GRID14 = map Inr GRID14_BOXES
    \<and> list_all in_unit GRID14
    \<and> list_all (\<lambda>h. clamp_geometry exact_float h = h) GRID14
    \<and> distinct (map (area exact_float) GRID14_BOXES)
    \<and> ordered_keys exact_float (map (area exact_float) GRID14_BOXES)
    \<and> apart exact_float GRID14_BOXES
    \<and> length GRID14 = 14
    \<and> (\<exists>out. dedupe_hotspots exact_float ascii_env (map PDict GRID14) = Inr out
          \<and> length out = 12)"
proof -
  have unit: "\<forall>h\<in>set GRID14. clamp_geometry exact_float h = h"
    using grid_unit by (simp add: list_all_iff clamp_geometry_id)
  have ord: "ordered_keys exact_float (map (area exact_float) GRID14_BOXES)"
    using grid_areas by (simp only: exact_ordered_keys)
  have len: "length GRID14 = 14"
    by (simp add: GRID14_def)
  from dedupe_keeps_largest [OF grid_boxes unit ord grid_apart] len
  have "\<exists>out. dedupe_hotspots exact_float ascii_env (map PDict GRID14) = Inr out
      \<and> length out = 12"
    by blast
  moreover from unit have "list_all (\<lambda>h. clamp_geometry exact_float h = h) GRID14"
    by (simp only: list_all_iff)
  ultimately show ?thesis
    using grid_boxes grid_unit grid_areas ord grid_apart len by blast
qed

lemma exact_unit_sound: "unit_sound exact_float"
  by (simp add: unit_sound_def exact_float_simps exact_of_num)

lemma outside_result:
  "dedupe_hotspots exact_float ascii_env OUTSIDE3 = Inr [circle_at 1 0 1, rect_at 0 1 0 1]"
  by (simp add: OUTSIDE3_def circle_at_def rect_at_def eval_simps)

theorem dedupe_geometry_clamped_witness:
  "unit_sound exact_float
    \<and> list_all (hotspot_typed exact_float) (dicts_of OUTSIDE3)
    \<and> dedupe_hotspots exact_float ascii_env OUTSIDE3 = Inr [circle_at 1 0 1, rect_at 0 1 0 1]
    \<and> list_all (geom_ok exact_float) [circle_at 1 0 1, rect_at 0 1 0 1]
    \<and> area exact_float (- 1 / 2, 7 / 4, - 1 / 2, 19 / 4) = 0"
proof -
  have typed: "list_all (hotspot_typed exact_float) (dicts_of OUTSIDE3)"
    by (simp add: OUTSIDE3_def circle_at_def rect_at_def hotspot_typed_def py_get_def
        GEOM_KEYS_def u_def exact_of_num)
  from dedupe_geometry_clamped [OF exact_unit_sound, of ascii_env OUTSIDE3] outside_result
  have "list_all (geom_ok exact_float) [circle_at 1 0 1, rect_at 0 1 0 1]"
    unfolding geom_ok_def field_ok_def list_all_iff by blast
  with exact_unit_sound typed outside_result show ?thesis by (simp add: exact_simps)
qed

text \<open>
  C4, as stated, fails for an integer that is too large for a float. \<^verbatim>\<open>float\<close> raises
  \<^verbatim>\<open>OverflowError\<close> for it. Where the clamping meets it, the error is caught and the field
  stays as it is: the circle \<open>STRAY\<close> is returned with its field \<^verbatim>\<open>x\<close> at \<open>10 ^ 400\<close>. Where
  the box of a hotspot reads it, nothing catches the error: for a rectangle with this
  \<^verbatim>\<open>x\<close> \<open>dedupe_hotspots\<close> raises.
\<close>

theorem dedupe_overflow_counterexample:
  "HUGE_INT = 10 ^ 400
    \<and> 1 < HUGE_INT
    \<and> py_float exact_float (PNum HUGE_INT) = Inl OverflowError
    \<and> u ''x'' \<in> set GEOM_KEYS
    \<and> map_of STRAY (u ''x'') = Some (PNum HUGE_INT)
    \<and> dedupe_hotspots exact_float ascii_env [PDict STRAY] = Inr [STRAY]
    \<and> dedupe_hotspots exact_float ascii_env [PDict (rect_at HUGE_INT 0 1 1)]
        = Inl OverflowError"
proof -
  have big: "1 < HUGE_INT"
    by (simp add: HUGE_INT_def)
  have "f_of_num exact_float HUGE_INT = None"
    by (simp add: exact_float_def FLOAT_LIMIT_def HUGE_INT_def)
  then have huge: "py_float exact_float (PNum HUGE_INT) = Inl OverflowError"
    by simp
  have stray: "dedupe_hotspots exact_float ascii_env [PDict STRAY] = Inr [STRAY]"
    using huge by (simp add: STRAY_def eval_simps)
  have rect: "dedupe_hotspots exact_float ascii_env [PDict (rect_at HUGE_INT 0 1 1)]
      = Inl OverflowError"
    using huge by (simp add: rect_at_def bbox_def py_get_def py_or_def ebind_def ascii_env_def
        u_def ascii_lower_def dedupe_hotspots_def area_key_def)
  have "u ''x'' \<in> set GEOM_KEYS" by (simp add: GEOM_KEYS_def)
  moreover have "map_of STRAY (u ''x'') = Some (PNum HUGE_INT)"
    by (simp add: STRAY_def u_def)
  ultimately show ?thesis using HUGE_INT_def big huge stray rect by blast
qed

text \<open>
  C2 at a concrete input. The two circles of the scenario match (their centres are less
  than 0.12 apart) and are merged into one entry. Its risks are the union of both risk
  lists, without a duplicate, and label and severity are as the claim says; but its
  suggested edits hold "blur" twice: \<open>merge\<close> puts only the kept entry's edits through a
  set and appends the incoming entry's edits as they are. The merge itself computes
  nothing in floats.
\<close>

theorem merge_repeats_suggested_edits:
  "dedupe_hotspots exact_float ascii_env [PDict SCENE_A, PDict SCENE_B] = Inr [SCENE_MERGED]
    \<and> py_get SCENE_MERGED (u ''risks'') PNone = PList [PStr (u ''flag''), PStr (u ''slogan'')]
    \<and> py_get SCENE_MERGED (u ''suggested_edits'') PNone
        = PList [PStr (u ''blur''), PStr (u ''blur'')]
    \<and> \<not> distinct [PStr (u ''blur''), PStr (u ''blur'')]
    \<and> merge SCENE_A SCENE_B = Inr SCENE_MERGED"
  by (simp add: SCENE_A_def SCENE_B_def SCENE_MERGED_def eval_simps)

section \<open>Caption span matcher\<close>

text \<open>
  The characters of the class \<^verbatim>\<open>[\<dots>]\<close> that opens and closes the pattern of
  \<^verbatim>\<open>_extract_spans_from_flags\<close>: U+201C, U+201D, the double quote and the apostrophe.
\<close>

definition is_quote :: "nat \<Rightarrow> bool" where
  "is_quote c \<longleftrightarrow> c = 8220 \<or> c = 8221 \<or> c = 34 \<or> c = 39"

text \<open>
  \<^verbatim>\<open>re.findall\<close> with that pattern (a quote character, one or more characters that are
  no quote character, a quote character), returning the group. At a quote character the
  longest run of other characters is taken; the match succeeds when the run is not empty
  and a quote character follows it, and the search goes on behind that character.
  Otherwise the search goes on at the next character.
\<close>

function find_quoted :: "ustr \<Rightarrow> ustr list" where
  "find_quoted [] = []"
| "find_quoted (c # cs) =
     (if is_quote c \<and> takeWhile (\<lambda>x. \<not> is_quote x) cs \<noteq> []
         \<and> dropWhile (\<lambda>x. \<not> is_quote x) cs \<noteq> []
      then takeWhile (\<lambda>x. \<not> is_quote x) cs
           # find_quoted (tl (dropWhile (\<lambda>x. \<not> is_quote x) cs))
      else find_quoted cs)"
  by pat_completeness auto
termination
proof (relation "measure length")
  show "wf (measure length)" by simp
next
  fix c :: nat and cs :: ustr
  have "length (tl (dropWhile (\<lambda>x. \<not> is_quote x) cs)) \<le> length cs"
    using length_dropWhile_le [of "\<lambda>x. \<not> is_quote x" cs] by simp
  then show "(tl (dropWhile (\<lambda>x. \<not> is_quote x) cs), c # cs) \<in> measure length"
    by simp
next
  fix c :: nat and cs :: ustr
  show "(cs, c # cs) \<in> measure length" by simp
qed

text \<open>\<^verbatim>\<open>v.strip()\<close> on a value: only a string has the method.\<close>

fun py_strip :: "pyval \<Rightarrow> error + ustr" where
  "py_strip (PStr s) = Inr (strip s)"
| "py_strip v = Inl AttributeError"

text \<open>The spans that one element of \<^verbatim>\<open>issues\<close> gives; \<^verbatim>\<open>re.findall\<close> takes a string.\<close>

fun issue_spans :: "pyval \<Rightarrow> error + ustr list" where
  "issue_spans (PStr iss) = Inr (filter (\<lambda>t. t \<noteq> []) (map strip (find_quoted iss)))"
| "issue_spans v = Inl TypeError"

fun issues_spans :: "pyval list \<Rightarrow> error + ustr list" where
  "issues_spans [] = Inr []"
| "issues_spans (iss # rest) =
     ebind (issue_spans iss) (\<lambda>a. ebind (issues_spans rest) (\<lambda>b. Inr (a @ b)))"

text \<open>The body of the loop over the flags, for one flag.\<close>

definition flag_spans :: "pyval \<Rightarrow> error + ustr list" where
  "flag_spans f =
     (case f of
        PDict kvs \<Rightarrow>
          ebind (py_strip (py_or (py_get kvs (u ''span'') PNone) (PStr []))) (\<lambda>s.
          ebind (py_iter (py_or (py_get kvs (u ''issues'') PNone) (PList []))) (\<lambda>issues.
          ebind (issues_spans issues) (\<lambda>found.
            Inr ((if s \<noteq> [] then [s] else []) @ found))))
      | _ \<Rightarrow> Inl AttributeError)"

fun flags_spans :: "pyval list \<Rightarrow> error + ustr list" where
  "flags_spans [] = Inr []"
| "flags_spans (f # fs) =
     ebind (flag_spans f) (\<lambda>a. ebind (flags_spans fs) (\<lambda>b. Inr (a @ b)))"

text \<open>
  \<^verbatim>\<open>_extract_spans_from_flags\<close>. The spans pass through a set: the model lists them in
  order of first occurrence before the stable sort by decreasing length, where Python
  fixes no order among spans of the same length.
\<close>

definition extract_spans :: "pyval list \<Rightarrow> error + ustr list" where
  "extract_spans flags =
     ebind (flags_spans flags) (\<lambda>spans.
       Inr (sort_key (\<lambda>s. - int (length s))
              (filter (\<lambda>s. length s \<ge> 2) (remdups spans))))"

text \<open>
  \<^verbatim>\<open>_find_all_ranges\<close>: the matches of the escaped needle, case-insensitive, found from
  left to right without overlap. A pattern character matches one text character.
\<close>

fun match_at :: "pyenv \<Rightarrow> ustr \<Rightarrow> ustr \<Rightarrow> bool" where
  "match_at env [] ts = True"
| "match_at env (n # ns) [] = False"
| "match_at env (n # ns) (t # ts) = (re_ieq env n t \<and> match_at env ns ts)"

function find_from :: "pyenv \<Rightarrow> nat \<Rightarrow> ustr \<Rightarrow> nat \<Rightarrow> ustr \<Rightarrow> (nat \<times> nat) list" where
  "find_from env n ns i [] = []"
| "find_from env n ns i (t # ts) =
     (if match_at env (n # ns) (t # ts)
      then (i, i + Suc (length ns))
           # find_from env n ns (i + Suc (length ns)) (drop (length ns) ts)
      else find_from env n ns (Suc i) ts)"
  by pat_completeness auto
termination
  by (relation "measure (\<lambda>(env, n, ns, i, ts). length ts)") auto

definition find_all_ranges :: "pyenv \<Rightarrow> ustr \<Rightarrow> ustr \<Rightarrow> (nat \<times> nat) list" where
  "find_all_ranges env text needle =
     (case needle of [] \<Rightarrow> [] | n # ns \<Rightarrow> find_from env n ns 0 text)"

text \<open>
  \<^verbatim>\<open>_merge_ranges\<close>: the ranges are sorted as pairs, and a range that starts at or before
  the end of the last merged range is joined to it. The first argument of \<open>merge_from\<close> is
  \<^verbatim>\<open>merged[-1]\<close>.
\<close>

fun merge_from :: "nat \<times> nat \<Rightarrow> (nat \<times> nat) list \<Rightarrow> (nat \<times> nat) list" where
  "merge_from (ls, le) [] = [(ls, le)]"
| "merge_from (ls, le) ((s, e) # rs) =
     (if s \<le> le then merge_from (ls, max le e) rs
      else (ls, le) # merge_from (s, e) rs)"

definition merge_ranges :: "(nat \<times> nat) list \<Rightarrow> (nat \<times> nat) list" where
  "merge_ranges ranges = (case sort ranges of [] \<Rightarrow> [] | r # rs \<Rightarrow> merge_from r rs)"

text \<open>\<^verbatim>\<open>s.replace(c, rep)\<close> for a one-character \<^verbatim>\<open>c\<close>, and \<^verbatim>\<open>html.escape(s)\<close>.\<close>

definition replace_char :: "nat \<Rightarrow> ustr \<Rightarrow> ustr \<Rightarrow> ustr" where
  "replace_char c rep s = concat (map (\<lambda>x. if x = c then rep else [x]) s)"

definition html_escape :: "ustr \<Rightarrow> ustr" where
  "html_escape s =
     replace_char 39 (u ''&#x27;'')
       (replace_char 34 (u ''&quot;'')
         (replace_char 62 (u ''&gt;'')
           (replace_char 60 (u ''&lt;'')
             (replace_char 38 (u ''&amp;'') s))))"

text \<open>\<^verbatim>\<open>xs[a:b]\<close> for indices that are not negative.\<close>

definition slice :: "'a list \<Rightarrow> nat \<Rightarrow> nat \<Rightarrow> 'a list" where
  "slice xs a b = take (b - a) (drop a xs)"

definition DIV_OPEN :: ustr where
  "DIV_OPEN = u ''<div class='' @ [39] @ u ''caption-strong'' @ [39] @ u ''>''"

definition DIV_CLOSE :: ustr where
  "DIV_CLOSE = u ''</div>''"

definition SPAN_OPEN :: ustr where
  "SPAN_OPEN = u ''<span class='' @ [39] @ u ''caption-flag'' @ [39] @ u ''>''"

definition SPAN_CLOSE :: ustr where
  "SPAN_CLOSE = u ''</span>''"

text \<open>The loop of \<^verbatim>\<open>highlight_caption\<close> that builds \<^verbatim>\<open>parts\<close>, with its closing statement.\<close>

fun hl_parts :: "ustr \<Rightarrow> nat \<Rightarrow> (nat \<times> nat) list \<Rightarrow> ustr list" where
  "hl_parts original pos [] =
     (if pos < length original then [html_escape (drop pos original)] else [])"
| "hl_parts original pos ((s, e) # rs) =
     (if pos < s then [html_escape (slice original pos s)] else [])
     @ [SPAN_OPEN @ html_escape (slice original s e) @ SPAN_CLOSE]
     @ hl_parts original e rs"

definition highlight_caption :: "pyenv \<Rightarrow> ustr \<Rightarrow> pyval list \<Rightarrow> error + ustr" where
  "highlight_caption env original flags =
     ebind (extract_spans flags) (\<lambda>spans.
       let all_ranges = merge_ranges (concat (map (find_all_ranges env original) spans))
       in if all_ranges = [] then Inr (DIV_OPEN @ html_escape original @ DIV_CLOSE)
          else Inr (DIV_OPEN @ concat (hl_parts original 0 all_ranges) @ DIV_CLOSE))"

text \<open>
  For stating what the markup is made of: the escape of one character, and the markup
  of a segment of the caption, highlighted or plain.
\<close>

definition esc_char :: "nat \<Rightarrow> ustr" where
  "esc_char c =
     (if c = 38 then u ''&amp;''
      else if c = 60 then u ''&lt;''
      else if c = 62 then u ''&gt;''
      else if c = 34 then u ''&quot;''
      else if c = 39 then u ''&#x27;''
      else [c])"

definition render :: "bool \<times> ustr \<Rightarrow> ustr" where
  "render seg =
     (if fst seg then SPAN_OPEN @ concat (map esc_char (snd seg)) @ SPAN_CLOSE
      else concat (map esc_char (snd seg)))"

text \<open>
  A caption flag as the data model has it: a dictionary whose span is missing, \<^verbatim>\<open>None\<close> or
  a string and whose issues are missing, \<^verbatim>\<open>None\<close> or a list of strings.
\<close>

fun flag_typed :: "pyval \<Rightarrow> bool" where
  "flag_typed (PDict kvs) =
     ((case py_get kvs (u ''span'') PNone of PNone \<Rightarrow> True | PStr s \<Rightarrow> True | _ \<Rightarrow> False)
      \<and> str_list (py_get kvs (u ''issues'') PNone))"
| "flag_typed v = False"

section \<open>Quoted substrings\<close>

lemma find_quoted_skip:
  "\<forall>c\<in>set pre. \<not> is_quote c \<Longrightarrow> find_quoted (pre @ s) = find_quoted s"
  by (induction pre) simp_all

lemma find_quoted_hit:
  assumes "is_quote q1" and "is_quote q2" and "body \<noteq> []"
    and "\<forall>c\<in>set body. \<not> is_quote c"
  shows "find_quoted (q1 # body @ q2 # post) = body # find_quoted post"
proof -
  have tw: "takeWhile (\<lambda>x. \<not> is_quote x) (body @ q2 # post) = body"
    using assms(2,4) by (simp add: takeWhile_tail)
  have dw: "dropWhile (\<lambda>x. \<not> is_quote x) (body @ q2 # post) = q2 # post"
    using assms(2,4) by (simp add: dropWhile_append3)
  show ?thesis
    using assms(1,3) by (simp add: tw dw)
qed

lemma find_quoted_enclosed:
  "m \<in> set (find_quoted s) \<Longrightarrow>
     m \<noteq> [] \<and> (\<forall>c\<in>set m. \<not> is_quote c)
     \<and> (\<exists>pre q1 q2 post. is_quote q1 \<and> is_quote q2 \<and> s = pre @ q1 # m @ q2 # post)"
proof (induction s arbitrary: m rule: find_quoted.induct)
  case 1
  then show ?case by simp
next
  case (2 c cs)
  define body where "body = takeWhile (\<lambda>x. \<not> is_quote x) cs"
  define rest where "rest = dropWhile (\<lambda>x. \<not> is_quote x) cs"
  have split: "cs = body @ rest"
    unfolding body_def rest_def by (rule takeWhile_dropWhile_id [symmetric])
  have nq: "\<forall>x\<in>set body. \<not> is_quote x"
    unfolding body_def by (auto dest: set_takeWhileD)
  show ?case
  proof (cases "is_quote c \<and> body \<noteq> [] \<and> rest \<noteq> []")
    case hit: True
    then obtain q2 post where rest: "rest = q2 # post" by (cases rest) auto
    from hit have "rest \<noteq> []" by simp
    then have "dropWhile (\<lambda>x. \<not> is_quote x) cs \<noteq> []" unfolding rest_def .
    from hd_dropWhile [OF this] have "\<not> (\<not> is_quote (hd rest))" unfolding rest_def .
    then have q2: "is_quote q2" by (simp add: rest)
    have step: "find_quoted (c # cs) = body # find_quoted post"
      using hit by (simp add: body_def [symmetric] rest_def [symmetric] rest)
    from "2.prems" have "m = body \<or> m \<in> set (find_quoted post)"
      by (simp only: step set_simps insert_iff)
    then show ?thesis
    proof
      assume m: "m = body"
      have "c # cs = [] @ c # m @ q2 # post"
        by (simp only: split rest m append_Nil)
      with hit q2 nq m show ?thesis by blast
    next
      assume "m \<in> set (find_quoted post)"
      then have "m \<in> set (find_quoted (tl (dropWhile (\<lambda>x. \<not> is_quote x) cs)))"
        by (simp add: rest_def [symmetric] rest)
      with "2.IH"(1) hit obtain pre q1 q3 post'
        where ih: "m \<noteq> []" "\<forall>c\<in>set m. \<not> is_quote c" "is_quote q1" "is_quote q3"
          "tl (dropWhile (\<lambda>x. \<not> is_quote x) cs) = pre @ q1 # m @ q3 # post'"
        unfolding body_def rest_def by blast
      have "post = pre @ q1 # m @ q3 # post'"
        using ih(5) by (simp add: rest_def [symmetric] rest)
      then have "c # cs = (c # body @ q2 # pre) @ q1 # m @ q3 # post'"
        by (simp add: split rest)
      with ih(1-4) show ?thesis by blast
    qed
  next
    case miss: False
    then have step: "find_quoted (c # cs) = find_quoted cs"
      by (auto simp add: body_def [symmetric] rest_def [symmetric])
    with "2.prems" have "m \<in> set (find_quoted cs)" by (simp only:)
    with "2.IH"(2) miss obtain pre q1 q2 post
      where ih: "m \<noteq> []" "\<forall>c\<in>set m. \<not> is_quote c" "is_quote q1" "is_quote q2"
        "cs = pre @ q1 # m @ q2 # post"
      unfolding body_def rest_def by blast
    have "c # cs = (c # pre) @ q1 # m @ q2 # post"
      by (simp add: ih(5))
    with ih(1-4) show ?thesis by blast
  qed
qed

text \<open>
  C9 (amended). A substring of an issues string is found as a candidate only when it is a
  non-empty run of characters that are no quote character, standing between two quote
  characters; any two of the four quote characters will do, the same or different. Such
  a run is found whenever no quote character stands before its opening character.
\<close>

theorem find_quoted_any_pair:
  "(is_quote q1 \<and> is_quote q2 \<and> body \<noteq> [] \<and> (\<forall>c\<in>set body. \<not> is_quote c)
      \<and> (\<forall>c\<in>set pre. \<not> is_quote c)
      \<longrightarrow> find_quoted (pre @ q1 # body @ q2 # post) = body # find_quoted post)
    \<and> (\<forall>m\<in>set (find_quoted s).
         m \<noteq> [] \<and> (\<forall>c\<in>set m. \<not> is_quote c)
         \<and> (\<exists>pre q1 q2 post. is_quote q1 \<and> is_quote q2 \<and> s = pre @ q1 # m @ q2 # post))
    \<and> issue_spans (PStr s) = Inr (filter (\<lambda>t. t \<noteq> []) (map strip (find_quoted s)))"
  using find_quoted_skip [of pre "q1 # body @ q2 # post"]
    find_quoted_hit [of q1 q2 body post] find_quoted_enclosed [of _ s]
  by auto

theorem find_quoted_any_pair_witness:
  "is_quote 8221 \<and> is_quote 39 \<and> [97, 98] \<noteq> [] \<and> list_all (\<lambda>c. \<not> is_quote c) [97, 98]
    \<and> list_all (\<lambda>c. \<not> is_quote c) [115, 32]
    \<and> find_quoted ([115, 32] @ 8221 # [97, 98] @ 39 # [33]) = [[97, 98]]
    \<and> [97, 98] \<in> set (find_quoted [115, 32, 8221, 97, 98, 39, 33])"
  using find_quoted_any_pair [of 8221 39 "[97, 98]" "[115, 32]" "[33]" "[115, 32, 8221, 97, 98, 39, 33]"]
  by (simp add: is_quote_def)

text \<open>
  C9, as stated, fails: in the string of a double quote, "ab" and an apostrophe, the two
  delimiters differ, and "ab" is a candidate.
\<close>

theorem mismatched_quotes_counterexample:
  "is_quote 34 \<and> is_quote 39 \<and> (34 :: nat) \<noteq> 39
    \<and> find_quoted [34, 97, 98, 39] = [[97, 98]]
    \<and> extract_spans [PDict [(u ''issues'', PList [PStr [34, 97, 98, 39]])]] = Inr [[97, 98]]"
  by (simp add: is_quote_def extract_spans_def flag_spans_def py_get_def py_or_def ebind_def
      strip_def is_space_def)

section \<open>The markup of a caption\<close>

lemma replace_char_append:
  "replace_char c rep (a @ b) = replace_char c rep a @ replace_char c rep b"
  by (simp add: replace_char_def)

lemma html_escape_append: "html_escape (a @ b) = html_escape a @ html_escape b"
  by (simp add: html_escape_def replace_char_append)

lemma html_escape_single: "html_escape [c] = esc_char c"
  by (simp add: html_escape_def esc_char_def replace_char_def u_def)

text \<open>\<^verbatim>\<open>html.escape\<close> escapes a string character by character.\<close>

lemma html_escape_chars: "html_escape s = concat (map esc_char s)"
proof (induction s)
  case Nil
  show ?case by (simp add: html_escape_def replace_char_def)
next
  case (Cons c s)
  have "html_escape (c # s) = html_escape ([c] @ s)" by simp
  also have "\<dots> = esc_char c @ html_escape s"
    by (simp only: html_escape_append html_escape_single)
  finally show ?case by (simp add: Cons.IH)
qed

text \<open>The segments of the caption that \<open>hl_parts\<close> turns into markup.\<close>

fun hl_segs :: "ustr \<Rightarrow> nat \<Rightarrow> (nat \<times> nat) list \<Rightarrow> (bool \<times> ustr) list" where
  "hl_segs original pos [] =
     (if pos < length original then [(False, drop pos original)] else [])"
| "hl_segs original pos ((s, e) # rs) =
     (if pos < s then [(False, slice original pos s)] else [])
     @ [(True, slice original s e)]
     @ hl_segs original e rs"

lemma hl_parts_render: "hl_parts original pos rs = map render (hl_segs original pos rs)"
  by (induction original pos rs rule: hl_segs.induct)
    (simp_all add: render_def html_escape_chars)

text \<open>Ranges that follow one another, from a position up to the length of the text.\<close>

fun chain :: "nat \<Rightarrow> nat \<Rightarrow> (nat \<times> nat) list \<Rightarrow> bool" where
  "chain n pos [] = (pos \<le> n)"
| "chain n pos ((s, e) # rs) = (pos \<le> s \<and> s \<le> e \<and> e \<le> n \<and> chain n e rs)"

lemma slice_drop:
  assumes "a \<le> b"
  shows "slice xs a b @ drop b xs = drop a xs"
proof -
  have "drop (b - a) (drop a xs) = drop b xs"
    using assms by simp
  then have "slice xs a b @ drop b xs = take (b - a) (drop a xs) @ drop (b - a) (drop a xs)"
    by (simp only: slice_def)
  then show ?thesis by (simp only: append_take_drop_id)
qed

lemma hl_segs_concat:
  "chain (length original) pos rs \<Longrightarrow>
     concat (map snd (hl_segs original pos rs)) = drop pos original"
proof (induction original pos rs rule: hl_segs.induct)
  case (1 original pos)
  then show ?case by simp
next
  case (2 original pos s e rs)
  then have ih: "concat (map snd (hl_segs original e rs)) = drop e original"
    and le: "pos \<le> s" "s \<le> e"
    by simp_all
  have "concat (map snd (hl_segs original pos ((s, e) # rs)))
      = slice original pos s @ slice original s e @ drop e original"
    using le(1) by (auto simp: ih slice_def)
  also have "\<dots> = slice original pos s @ drop s original"
    by (simp only: slice_drop [OF le(2)])
  also have "\<dots> = drop pos original"
    by (rule slice_drop [OF le(1)])
  finally show ?case .
qed

lemma merge_from_chain:
  assumes "pos \<le> ls" and "ls \<le> le" and "le \<le> n"
    and "\<forall>(s, e)\<in>set rs. s \<le> e \<and> e \<le> n"
  shows "chain n pos (merge_from (ls, le) rs)"
  using assms
proof (induction rs arbitrary: pos ls le)
  case Nil
  then show ?case by simp
next
  case (Cons r rs)
  obtain s e where r: "r = (s, e)" by (cases r)
  from Cons.prems(4) r have se: "s \<le> e" "e \<le> n"
    and rest: "\<forall>(s, e)\<in>set rs. s \<le> e \<and> e \<le> n"
    by simp_all
  show ?case
  proof (cases "s \<le> le")
    case True
    have "chain n pos (merge_from (ls, max le e) rs)"
      using Cons.prems(1-3) se rest by (intro Cons.IH) simp_all
    with True show ?thesis by (simp add: r)
  next
    case False
    have "chain n le (merge_from (s, e) rs)"
      using False se rest by (intro Cons.IH) simp_all
    with False Cons.prems(1-3) show ?thesis by (simp add: r)
  qed
qed

lemma merge_ranges_chain:
  assumes "\<forall>(s, e)\<in>set ranges. s \<le> e \<and> e \<le> n"
  shows "chain n 0 (merge_ranges ranges)"
proof (cases "sort ranges")
  case Nil
  then show ?thesis by (simp add: merge_ranges_def)
next
  case (Cons r rs)
  have "set (r # rs) = set ranges"
    using Cons set_sort [of "\<lambda>x. x" ranges] by simp
  with assms have all: "\<forall>(s, e)\<in>set (r # rs). s \<le> e \<and> e \<le> n" by simp
  obtain ls le where r: "r = (ls, le)" by (cases r)
  from all r have "ls \<le> le" "le \<le> n" "\<forall>(s, e)\<in>set rs. s \<le> e \<and> e \<le> n"
    by simp_all
  then have "chain n 0 (merge_from (ls, le) rs)"
    by (intro merge_from_chain) simp_all
  with Cons r show ?thesis by (simp add: merge_ranges_def)
qed

lemma match_at_length: "match_at env ns ts \<Longrightarrow> length ns \<le> length ts"
  by (induction env ns ts rule: match_at.induct) simp_all

lemma find_from_ranges:
  "(s, e) \<in> set (find_from env n ns i ts) \<Longrightarrow> s \<le> e \<and> e \<le> i + length ts"
proof (induction env n ns i ts rule: find_from.induct)
  case (1 env n ns i)
  then show ?case by simp
next
  case (2 env n ns i t ts)
  show ?case
  proof (cases "match_at env (n # ns) (t # ts)")
    case True
    from match_at_length [OF True] have len: "length ns \<le> length ts" by simp
    from True have "find_from env n ns i (t # ts) = (i, i + Suc (length ns))
        # find_from env n ns (i + Suc (length ns)) (drop (length ns) ts)"
      by (simp only: find_from.simps if_True)
    with "2.prems" have
      "(s, e) = (i, i + Suc (length ns))
        \<or> (s, e) \<in> set (find_from env n ns (i + Suc (length ns)) (drop (length ns) ts))"
      by (simp only: set_simps insert_iff)
    then show ?thesis
    proof
      assume "(s, e) = (i, i + Suc (length ns))"
      with len show ?thesis by simp
    next
      assume "(s, e) \<in> set (find_from env n ns (i + Suc (length ns)) (drop (length ns) ts))"
      from "2.IH"(1) [OF True this] len show ?thesis by simp
    qed
  next
    case False
    then have "find_from env n ns i (t # ts) = find_from env n ns (Suc i) ts"
      by (simp only: find_from.simps if_False)
    with "2.prems" have "(s, e) \<in> set (find_from env n ns (Suc i) ts)" by (simp only:)
    from "2.IH"(2) [OF False this] show ?thesis by simp
  qed
qed

lemma find_all_ranges_ok:
  "(s, e) \<in> set (find_all_ranges env text needle) \<Longrightarrow> s \<le> e \<and> e \<le> length text"
  using find_from_ranges [of s e env _ _ 0 "text"]
  by (cases needle) (simp_all add: find_all_ranges_def)

text \<open>
  The markup is the opening of the block, the markup of consecutive segments that make
  up the caption, and the closing of the block.
\<close>

lemma highlight_segments:
  assumes "highlight_caption env text flags = Inr out"
  shows "\<exists>segs. concat (map snd segs) = text
    \<and> out = DIV_OPEN @ concat (map render segs) @ DIV_CLOSE"
proof -
  from assms obtain spans where spans: "extract_spans flags = Inr spans"
    by (auto simp: highlight_caption_def ebind_def split: sum.splits)
  define rs where "rs = merge_ranges (concat (map (find_all_ranges env text) spans))"
  have "\<forall>(s, e)\<in>set (concat (map (find_all_ranges env text) spans)). s \<le> e \<and> e \<le> length text"
    using find_all_ranges_ok by fastforce
  then have ch: "chain (length text) 0 rs"
    unfolding rs_def by (rule merge_ranges_chain)
  show ?thesis
  proof (cases "rs = []")
    case True
    with assms spans have "out = DIV_OPEN @ html_escape text @ DIV_CLOSE"
      by (simp add: highlight_caption_def ebind_def rs_def)
    then have "out = DIV_OPEN @ concat (map render [(False, text)]) @ DIV_CLOSE"
      by (simp add: render_def html_escape_chars)
    moreover have "concat (map snd [(False, text)]) = text" by simp
    ultimately show ?thesis by blast
  next
    case False
    with assms spans have "out = DIV_OPEN @ concat (hl_parts text 0 rs) @ DIV_CLOSE"
      by (simp add: highlight_caption_def ebind_def rs_def)
    then have "out = DIV_OPEN @ concat (map render (hl_segs text 0 rs)) @ DIV_CLOSE"
      by (simp only: hl_parts_render)
    moreover have "concat (map snd (hl_segs text 0 rs)) = text"
      using hl_segs_concat [OF ch] by simp
    ultimately show ?thesis by blast
  qed
qed

lemma issues_spans_typed:
  "list_all is_str xs \<Longrightarrow> \<exists>found. issues_spans xs = Inr found"
proof (induction xs)
  case Nil
  show ?case by simp
next
  case (Cons x xs)
  then obtain found where "issues_spans xs = Inr found" by auto
  moreover from Cons.prems obtain s where "x = PStr s" by (cases x) auto
  ultimately show ?case by (simp add: ebind_def)
qed

lemma flag_spans_typed:
  assumes "flag_typed f"
  shows "\<exists>found. flag_spans f = Inr found"
proof -
  from assms obtain kvs where f: "f = PDict kvs" by (cases f) auto
  from assms f have sp: "case py_get kvs (u ''span'') PNone of
      PNone \<Rightarrow> True | PStr s \<Rightarrow> True | _ \<Rightarrow> False"
    and iss: "str_list (py_get kvs (u ''issues'') PNone)"
    by simp_all
  have "\<exists>s. py_strip (py_or (py_get kvs (u ''span'') PNone) (PStr [])) = Inr s"
    using sp by (cases "py_get kvs (u ''span'') PNone") (simp_all add: py_or_def)
  then obtain s where s: "py_strip (py_or (py_get kvs (u ''span'') PNone) (PStr [])) = Inr s"
    by blast
  from str_list_iter [OF iss] obtain xs
    where xs: "py_iter (py_or (py_get kvs (u ''issues'') PNone) (PList [])) = Inr xs"
      and strs: "list_all is_str xs" by blast
  from issues_spans_typed [OF strs] obtain found where "issues_spans xs = Inr found" by blast
  with s xs show ?thesis by (simp add: f flag_spans_def ebind_def)
qed

lemma flags_spans_typed:
  "list_all flag_typed fs \<Longrightarrow> \<exists>found. flags_spans fs = Inr found"
proof (induction fs)
  case Nil
  show ?case by simp
next
  case (Cons f fs)
  then obtain b where "flags_spans fs = Inr b" by auto
  moreover from Cons.prems have "flag_typed f" by simp
  from flag_spans_typed [OF this] obtain a where "flag_spans f = Inr a" by blast
  ultimately show ?case by (simp add: ebind_def)
qed

lemma highlight_typed:
  assumes "list_all flag_typed flags"
  shows "\<exists>out. highlight_caption env text flags = Inr out"
proof -
  from flags_spans_typed [OF assms] obtain found where "flags_spans flags = Inr found" by blast
  then show ?thesis
    by (simp add: highlight_caption_def extract_spans_def ebind_def Let_def)
qed

lemma esc_char_safe:
  "60 \<notin> set (esc_char c) \<and> 62 \<notin> set (esc_char c)
    \<and> (38 \<in> set (esc_char c) \<longrightarrow>
         esc_char c \<in> {u ''&amp;'', u ''&lt;'', u ''&gt;'', u ''&quot;'', u ''&#x27;''})"
  by (simp add: esc_char_def u_def)

text \<open>
  C8. Whatever the caption and the flags, the markup that \<open>highlight_caption\<close> returns is
  the opening of the block, then the markup of consecutive segments that together are the
  caption, then the closing of the block; the markup of a segment is the escape of its
  characters, between the opening and the closing of a span when it is highlighted. The
  escape of a character holds no \<^verbatim>\<open><\<close> and no \<^verbatim>\<open>>\<close>, and holds \<^verbatim>\<open>&\<close> only as the start of one
  of five entities. For well-typed flags \<open>highlight_caption\<close> returns.
\<close>

theorem highlight_escapes:
  "(\<forall>out. highlight_caption env text flags = Inr out \<longrightarrow>
      (\<exists>segs. concat (map snd segs) = text
         \<and> out = DIV_OPEN @ concat (map render segs) @ DIV_CLOSE))
    \<and> (\<forall>seg. render seg =
         (if fst seg then SPAN_OPEN @ concat (map esc_char (snd seg)) @ SPAN_CLOSE
          else concat (map esc_char (snd seg))))
    \<and> (\<forall>c. 60 \<notin> set (esc_char c) \<and> 62 \<notin> set (esc_char c)
         \<and> (38 \<in> set (esc_char c) \<longrightarrow>
              esc_char c \<in> {u ''&amp;'', u ''&lt;'', u ''&gt;'', u ''&quot;'', u ''&#x27;''}))
    \<and> (list_all flag_typed flags \<longrightarrow> (\<exists>out. highlight_caption env text flags = Inr out))"
proof -
  have "\<forall>out. highlight_caption env text flags = Inr out \<longrightarrow>
      (\<exists>segs. concat (map snd segs) = text
         \<and> out = DIV_OPEN @ concat (map render segs) @ DIV_CLOSE)"
    using highlight_segments by blast
  moreover have "\<forall>seg. render seg =
      (if fst seg then SPAN_OPEN @ concat (map esc_char (snd seg)) @ SPAN_CLOSE
       else concat (map esc_char (snd seg)))"
    by (simp add: render_def)
  moreover have "list_all flag_typed flags \<longrightarrow> (\<exists>out. highlight_caption env text flags = Inr out)"
    using highlight_typed by blast
  ultimately show ?thesis
    using esc_char_safe by blast
qed

theorem highlight_escapes_witness:
  "list_all flag_typed [PDict [(u ''span'', PStr (u '' OLED ''))]]
    \<and> highlight_caption ascii_env (u ''Buy <b>OLED</b> & oled now'')
          [PDict [(u ''span'', PStr (u '' OLED ''))]]
        = Inr (DIV_OPEN
            @ concat (map render
                [(False, u ''Buy <b>''), (True, u ''OLED''), (False, u ''</b> & ''),
                 (True, u ''oled''), (False, u '' now'')])
            @ DIV_CLOSE)
    \<and> concat (map snd
          [(False, u ''Buy <b>''), (True, u ''OLED''), (False, u ''</b> & ''),
           (True, u ''oled''), (False, u '' now'')]) = u ''Buy <b>OLED</b> & oled now''
    \<and> concat (map esc_char (u ''</b> & '')) = u ''&lt;/b&gt; &amp; ''"
proof -
  have spans: "extract_spans [PDict [(u ''span'', PStr (u '' OLED ''))]] = Inr [u ''OLED'']"
    by (simp add: extract_spans_def flag_spans_def py_get_def py_or_def ebind_def strip_def
        is_space_def u_def)
  have ranges: "find_all_ranges ascii_env (u ''Buy <b>OLED</b> & oled now'') (u ''OLED'')
      = [(7, 11), (18, 22)]"
    by (simp add: find_all_ranges_def ascii_env_def ascii_lower_def u_def)
  have merged: "merge_ranges [(7, 11), (18, 22)] = [(7 :: nat, 11 :: nat), (18, 22)]"
    by (simp add: merge_ranges_def)
  have "highlight_caption ascii_env (u ''Buy <b>OLED</b> & oled now'')
      [PDict [(u ''span'', PStr (u '' OLED ''))]]
    = Inr (DIV_OPEN @ concat (hl_parts (u ''Buy <b>OLED</b> & oled now'') 0 [(7, 11), (18, 22)])
        @ DIV_CLOSE)"
    by (simp add: highlight_caption_def spans ranges merged ebind_def)
  also have "hl_parts (u ''Buy <b>OLED</b> & oled now'') 0 [(7, 11), (18, 22)]
      = map render [(False, u ''Buy <b>''), (True, u ''OLED''), (False, u ''</b> & ''),
          (True, u ''oled''), (False, u '' now'')]"
    by (simp add: hl_parts_render slice_def u_def)
  finally have out: "highlight_caption ascii_env (u ''Buy <b>OLED</b> & oled now'')
      [PDict [(u ''span'', PStr (u '' OLED ''))]]
    = Inr (DIV_OPEN
        @ concat (map render
            [(False, u ''Buy <b>''), (True, u ''OLED''), (False, u ''</b> & ''),
             (True, u ''oled''), (False, u '' now'')])
        @ DIV_CLOSE)" .
  have typed: "list_all flag_typed [PDict [(u ''span'', PStr (u '' OLED ''))]]"
    by (simp add: py_get_def)
  have "concat (map esc_char (u ''</b> & '')) = u ''&lt;/b&gt; &amp; ''"
    by (simp add: esc_char_def u_def)
  with typed out highlight_escapes [of ascii_env "u ''Buy <b>OLED</b> & oled now''"
      "[PDict [(u ''span'', PStr (u '' OLED ''))]]"]
  show ?thesis by (simp add: u_def)
qed


end
